theory Spec2Isabelle
  imports Complex_Main "HOL-Library.AList" "HOL-Library.Monad_Syntax"
begin

section \<open>Buffers and strings of the host language\<close>

text \<open>
  A Node \<open>Buffer\<close> is a sequence of bytes: a \<open>char list\<close>, since a \<open>char\<close> of HOL is one
  byte. A JavaScript string is a sequence of UTF-16 code units, here natural numbers
  (below 65536 in every string the model builds). \<open>js\<close> writes a string literal of the
  source as such a sequence.
\<close>

type_synonym bytes = "char list"
type_synonym jsstring = "nat list"

definition js :: "string \<Rightarrow> jsstring" where
  "js s = map of_char s"

text \<open>\<open>buf[i]\<close>: the byte at index \<open>i\<close>, \<open>undefined\<close> (here \<open>None\<close>) out of range.\<close>

definition byte_at :: "bytes \<Rightarrow> nat \<Rightarrow> char option" where
  "byte_at buf i = (if i < length buf then Some (buf ! i) else None)"

text \<open>
  \<open>String.fromCharCode(x)\<close> on what \<open>buf[i]\<close> returns: the code unit of the byte, and
  the code unit 0 for \<open>undefined\<close> (\<open>ToUint16(NaN) = 0\<close>).
\<close>

fun fromCharCode :: "char option \<Rightarrow> jsstring" where
  "fromCharCode None = [0]"
| "fromCharCode (Some c) = [of_char c]"

text \<open>\<open>buf.indexOf(value)\<close>: the first index at which \<open>value\<close> occurs; \<open>None\<close> is the
  source's \<open>-1\<close>.\<close>

fun indexOf :: "bytes \<Rightarrow> bytes \<Rightarrow> nat option" where
  "indexOf [] v = (if v = [] then Some 0 else None)"
| "indexOf (b # bs) v =
     (if take (length v) (b # bs) = v then Some 0 else map_option Suc (indexOf bs v))"

subsection \<open>Numbers\<close>

text \<open>
  The numbers of the source are IEEE doubles. The model keeps the finite ones as exact
  rationals (rounding to 53 bits is not modelled, and \<open>-0\<close> is \<open>0\<close>); every integer
  below \<open>2^53\<close>, so every index and length of a buffer, is exact in both.
\<close>

datatype number = Fin rat | PosInf | NegInf | NaN

definition num :: "nat \<Rightarrow> number" where
  "num n = Fin (of_nat n)"

fun num_neg :: "number \<Rightarrow> number" where
  "num_neg (Fin q) = Fin (- q)"
| "num_neg PosInf = NegInf"
| "num_neg NegInf = PosInf"
| "num_neg NaN = NaN"

fun num_add :: "number \<Rightarrow> number \<Rightarrow> number" where
  "num_add NaN _ = NaN"
| "num_add _ NaN = NaN"
| "num_add (Fin a) (Fin b) = Fin (a + b)"
| "num_add PosInf NegInf = NaN"
| "num_add NegInf PosInf = NaN"
| "num_add PosInf _ = PosInf"
| "num_add NegInf _ = NegInf"
| "num_add _ PosInf = PosInf"
| "num_add _ NegInf = NegInf"

definition num_sub :: "number \<Rightarrow> number \<Rightarrow> number" where
  "num_sub a b = num_add a (num_neg b)"

text \<open>\<open>a < b\<close> of the source: false as soon as one side is \<open>NaN\<close>.\<close>

fun num_less :: "number \<Rightarrow> number \<Rightarrow> bool" where
  "num_less NaN _ = False"
| "num_less _ NaN = False"
| "num_less (Fin a) (Fin b) = (a < b)"
| "num_less PosInf _ = False"
| "num_less _ NegInf = False"
| "num_less _ PosInf = True"
| "num_less NegInf _ = True"

text \<open>
  \<open>buf.subarray(start, end)\<close>. Each offset is truncated to an integer, \<open>NaN\<close> counts
  as 0, a negative offset counts from the end, and the result is clamped to the buffer;
  an absent \<open>end\<close> is the length.
\<close>

fun adjustOffset :: "number \<Rightarrow> nat \<Rightarrow> nat" where
  "adjustOffset NaN len = 0"
| "adjustOffset PosInf len = len"
| "adjustOffset NegInf len = 0"
| "adjustOffset (Fin q) len =
     (let t = (if q < 0 then \<lceil>q\<rceil> else \<lfloor>q\<rfloor>) in
      if t < 0 then nat (t + int len)
      else if t < int len then nat t
      else len)"

definition subarray :: "bytes \<Rightarrow> number \<Rightarrow> number option \<Rightarrow> bytes" where
  "subarray buf start fin =
     (let s = adjustOffset start (length buf);
          e = (case fin of None \<Rightarrow> length buf | Some x \<Rightarrow> adjustOffset x (length buf))
      in take (e - s) (drop s buf))"

subsection \<open>\<open>Number(string)\<close>\<close>

text \<open>
  The conversion of a string to a number (ECMAScript \<open>StringToNumber\<close>): white space
  is trimmed at both ends, the empty string is 0, and the rest is a signed decimal
  literal (digits, fraction, exponent, \<open>Infinity\<close>) or an unsigned binary, octal or
  hexadecimal integer literal; anything else is \<open>NaN\<close>.
\<close>

definition is_ws :: "nat \<Rightarrow> bool" where
  "is_ws c \<longleftrightarrow> c \<in> {9, 10, 11, 12, 13, 32, 160, 5760, 8232, 8233, 8239, 8287, 12288, 65279}
     \<or> (8192 \<le> c \<and> c \<le> 8202)"

definition trim :: "jsstring \<Rightarrow> jsstring" where
  "trim s = rev (dropWhile is_ws (rev (dropWhile is_ws s)))"

definition is_digit :: "nat \<Rightarrow> bool" where
  "is_digit c \<longleftrightarrow> 48 \<le> c \<and> c \<le> 57"

definition digit_of :: "nat \<Rightarrow> nat option" where
  "digit_of c =
     (if 48 \<le> c \<and> c \<le> 57 then Some (c - 48)
      else if 97 \<le> c \<and> c \<le> 102 then Some (c - 87)
      else if 65 \<le> c \<and> c \<le> 70 then Some (c - 55)
      else None)"

definition digits_val :: "nat \<Rightarrow> jsstring \<Rightarrow> nat" where
  "digits_val radix ds = foldl (\<lambda>a c. radix * a + (case digit_of c of None \<Rightarrow> 0 | Some d \<Rightarrow> d)) 0 ds"

definition radix_literal :: "nat \<Rightarrow> jsstring \<Rightarrow> number" where
  "radix_literal radix ds =
     (if ds \<noteq> [] \<and> list_all (\<lambda>c. case digit_of c of None \<Rightarrow> False | Some d \<Rightarrow> d < radix) ds
      then num (digits_val radix ds) else NaN)"

text \<open>\<open>0x\<close>, \<open>0o\<close>, \<open>0b\<close> (either case) open a literal in that radix.\<close>

definition non_decimal :: "jsstring \<Rightarrow> number option" where
  "non_decimal t =
     (case t of
        c0 # c1 # ds \<Rightarrow>
          if c0 \<noteq> 48 then None
          else if c1 = 120 \<or> c1 = 88 then Some (radix_literal 16 ds)
          else if c1 = 111 \<or> c1 = 79 then Some (radix_literal 8 ds)
          else if c1 = 98 \<or> c1 = 66 then Some (radix_literal 2 ds)
          else None
      | _ \<Rightarrow> None)"

text \<open>The exponent part: absent, or \<open>e\<close>/\<open>E\<close>, an optional sign and at least one digit.\<close>

definition exponent_part :: "jsstring \<Rightarrow> int option" where
  "exponent_part r =
     (case r of
        [] \<Rightarrow> Some 0
      | c # ds \<Rightarrow>
          if c = 101 \<or> c = 69 then
            (case ds of
               [] \<Rightarrow> None
             | s # ds' \<Rightarrow>
                 if s = 45 then
                   (if ds' \<noteq> [] \<and> list_all is_digit ds' then Some (- int (digits_val 10 ds')) else None)
                 else if s = 43 then
                   (if ds' \<noteq> [] \<and> list_all is_digit ds' then Some (int (digits_val 10 ds')) else None)
                 else if list_all is_digit ds then Some (int (digits_val 10 ds))
                 else None)
          else None)"

definition scale10 :: "rat \<Rightarrow> int \<Rightarrow> rat" where
  "scale10 q k = (if 0 \<le> k then q * 10 ^ nat k else q / 10 ^ nat (- k))"

definition unsigned_decimal :: "jsstring \<Rightarrow> number" where
  "unsigned_decimal t =
     (if t = js ''Infinity'' then PosInf
      else
        let ip = takeWhile is_digit t;
            r1 = dropWhile is_digit t;
            fp = (case r1 of [] \<Rightarrow> [] | c # r \<Rightarrow> if c = 46 then takeWhile is_digit r else []);
            r2 = (case r1 of [] \<Rightarrow> [] | c # r \<Rightarrow> if c = 46 then dropWhile is_digit r else r1)
        in if ip = [] \<and> fp = [] then NaN
           else (case exponent_part r2 of
                   None \<Rightarrow> NaN
                 | Some k \<Rightarrow> Fin (scale10 (of_nat (digits_val 10 (ip @ fp))) (k - int (length fp)))))"

definition str_decimal :: "jsstring \<Rightarrow> number" where
  "str_decimal t =
     (case t of
        [] \<Rightarrow> NaN
      | c # r \<Rightarrow>
          if c = 43 then unsigned_decimal r
          else if c = 45 then num_neg (unsigned_decimal r)
          else unsigned_decimal t)"

definition Number :: "jsstring \<Rightarrow> number" where
  "Number s =
     (let t = trim s in
      if t = [] then num 0
      else (case non_decimal t of Some r \<Rightarrow> r | None \<Rightarrow> str_decimal t))"

subsection \<open>\<open>buf.toString('utf8')\<close>\<close>

text \<open>
  Decoding bytes as UTF-8 into UTF-16 code units, with U+FFFD for every ill-formed
  sequence (one for each maximal prefix of a well-formed sequence, the byte that
  broke it being read again), and a surrogate pair for a code point above U+FFFF.
\<close>

definition code_units :: "nat \<Rightarrow> jsstring" where
  "code_units cp =
     (if cp < 65536 then [cp]
      else [55296 + (cp - 65536) div 1024, 56320 + (cp - 65536) mod 1024])"

function utf8_start :: "nat list \<Rightarrow> jsstring"
  and utf8_cont :: "nat \<Rightarrow> nat \<Rightarrow> nat \<Rightarrow> nat \<Rightarrow> nat list \<Rightarrow> jsstring" where
  "utf8_start [] = []"
| "utf8_start (b # bs) =
     (if b < 128 then b # utf8_start bs
      else if 194 \<le> b \<and> b \<le> 223 then utf8_cont 1 (b mod 32) 128 191 bs
      else if 224 \<le> b \<and> b \<le> 239 then
        utf8_cont 2 (b mod 16) (if b = 224 then 160 else 128) (if b = 237 then 159 else 191) bs
      else if 240 \<le> b \<and> b \<le> 244 then
        utf8_cont 3 (b mod 8) (if b = 240 then 144 else 128) (if b = 244 then 143 else 191) bs
      else 65533 # utf8_start bs)"
| "utf8_cont needed cp lower upper [] = [65533]"
| "utf8_cont needed cp lower upper (b # bs) =
     (if b < lower \<or> upper < b then 65533 # utf8_start (b # bs)
      else if needed \<le> 1 then code_units (cp * 64 + b mod 64) @ utf8_start bs
      else utf8_cont (needed - 1) (cp * 64 + b mod 64) 128 191 bs)"
  by pat_completeness auto
termination
  by (relation "measure (\<lambda>x. case x of Inl bs \<Rightarrow> 2 * length bs
                                   | Inr (_, _, _, _, bs) \<Rightarrow> 2 * length bs + 1)") auto

definition toString_utf8 :: "bytes \<Rightarrow> jsstring" where
  "toString_utf8 buf = utf8_start (map of_char buf)"

subsection \<open>\<open>JSON.parse\<close>\<close>

text \<open>
  A value that \<open>JSON.parse\<close> returns. A number is kept as the decimal it was written
  as: sign, digits and power of ten (\<open>-12.50e3\<close> is \<open>JNumber True ''1250'' 1\<close>);
  its rounding to a double, and so its overflow to \<open>Infinity\<close>, is not modelled.
  An object is the list of its members in the order of the text; the last member of a
  name is the value of the property.
\<close>

datatype json =
    JNull
  | JBool bool
  | JNumber bool jsstring int
  | JString jsstring
  | JArray "json list"
  | JObject "(jsstring \<times> json) list"

definition json_ws :: "nat \<Rightarrow> bool" where
  "json_ws c \<longleftrightarrow> c = 9 \<or> c = 10 \<or> c = 13 \<or> c = 32"

definition skip_ws :: "jsstring \<Rightarrow> jsstring" where
  "skip_ws s = dropWhile json_ws s"

text \<open>The characters of a string after its opening quote, up to the closing one.\<close>

fun json_string :: "jsstring \<Rightarrow> jsstring \<Rightarrow> (jsstring \<times> jsstring) option" where
  "json_string [] acc = None"
| "json_string (c # cs) acc =
     (if c = 34 then Some (acc, cs)
      else if c = 92 then
        (case cs of
           [] \<Rightarrow> None
         | e # r \<Rightarrow>
             if e = 34 \<or> e = 92 \<or> e = 47 then json_string r (acc @ [e])
             else if e = 98 then json_string r (acc @ [8])
             else if e = 102 then json_string r (acc @ [12])
             else if e = 110 then json_string r (acc @ [10])
             else if e = 114 then json_string r (acc @ [13])
             else if e = 116 then json_string r (acc @ [9])
             else if e = 117 then
               (case r of
                  h1 # h2 # h3 # h4 # r' \<Rightarrow>
                    (case (digit_of h1, digit_of h2, digit_of h3, digit_of h4) of
                       (Some d1, Some d2, Some d3, Some d4) \<Rightarrow>
                         json_string r' (acc @ [((d1 * 16 + d2) * 16 + d3) * 16 + d4])
                     | _ \<Rightarrow> None)
                | _ \<Rightarrow> None)
             else None)
      else if c < 32 then None
      else json_string cs (acc @ [c]))"

text \<open>
  A number: \<open>-? (0 | [1-9][0-9]*) (. [0-9]+)? ([eE] [+-]? [0-9]+)?\<close>, the longest
  such prefix of the text.
\<close>

definition json_exponent :: "jsstring \<Rightarrow> (int \<times> jsstring) option" where
  "json_exponent r =
     (case r of
        [] \<Rightarrow> Some (0, [])
      | c # ds \<Rightarrow>
          if c = 101 \<or> c = 69 then
            (let neg = (case ds of [] \<Rightarrow> False | s # _ \<Rightarrow> s = 45);
                 ds' = (case ds of [] \<Rightarrow> [] | s # t \<Rightarrow> if s = 45 \<or> s = 43 then t else ds);
                 ex = takeWhile is_digit ds'
             in if ex = [] then None
                else Some ((if neg then - int (digits_val 10 ex) else int (digits_val 10 ex)),
                           dropWhile is_digit ds'))
          else Some (0, r))"

definition json_number :: "jsstring \<Rightarrow> (json \<times> jsstring) option" where
  "json_number s =
     (let neg = (case s of [] \<Rightarrow> False | c # _ \<Rightarrow> c = 45);
          s1 = (if neg then tl s else s);
          ip = takeWhile is_digit s1;
          r1 = dropWhile is_digit s1
      in if ip = [] \<or> (hd ip = 48 \<and> length ip > 1) then None
         else
           let dot = (case r1 of [] \<Rightarrow> False | c # _ \<Rightarrow> c = 46);
               fp = (if dot then takeWhile is_digit (tl r1) else []);
               r2 = (if dot then dropWhile is_digit (tl r1) else r1)
           in if dot \<and> fp = [] then None
              else (case json_exponent r2 of
                      None \<Rightarrow> None
                    | Some (k, r3) \<Rightarrow> Some (JNumber neg (ip @ fp) (k - int (length fp)), r3)))"

lemma skip_ws_length: "length (skip_ws s) \<le> length s"
  by (simp add: skip_ws_def length_dropWhile_le)

lemma skip_ws_Cons_length: "skip_ws s = c # r \<Longrightarrow> length r < length s"
  using skip_ws_length [of s] by simp

lemma json_string_length: "json_string s acc = Some (x, r) \<Longrightarrow> length r < length s"
proof (induction s arbitrary: acc x r rule: length_induct)
  case (1 s)
  have IH: "\<And>t acc x r. length t < length s \<Longrightarrow> json_string t acc = Some (x, r) \<Longrightarrow> length r < length t"
    using 1(1) by blast
  show ?case
  proof (cases s)
    case Nil
    with 1(2) show ?thesis by simp
  next
    case (Cons c cs)
    note s = this
    show ?thesis
    proof (cases "c = 34")
      case True
      with s 1(2) show ?thesis by simp
    next
      case False
      note n34 = this
      show ?thesis
      proof (cases "c = 92")
        case False
        with n34 s 1(2) have "json_string cs (acc @ [c]) = Some (x, r)"
          by (simp split: if_splits)
        from IH [OF _ this] s show ?thesis by simp
      next
        case True
        with s 1(2) obtain e t where cs: "cs = e # t" by (cases cs) auto
        show ?thesis
        proof (cases "e = 117")
          case False
          with True s cs 1(2) obtain a where "json_string t a = Some (x, r)"
            by (auto split: if_splits)
          from IH [OF _ this] s cs show ?thesis by simp
        next
          case u: True
          with True s cs 1(2) obtain h1 h2 h3 h4 t' a where
            t: "t = h1 # h2 # h3 # h4 # t'" and "json_string t' a = Some (x, r)"
            by (auto split: list.splits option.splits)
          from IH [OF _ this(2)] s cs t show ?thesis by simp
        qed
      qed
    qed
  qed
qed

text \<open>
  A value, then the rest of the text. \<open>json_elements\<close> reads the elements of an array
  after \<open>[\<close> or a comma, \<open>json_members\<close> the members of an object after \<open>{\<close> or a
  comma. The test \<open>length r < length s\<close> on the rest of a value only serves the
  termination proof: a value is never empty (\<open>json_value_length\<close>).
\<close>

function json_value :: "jsstring \<Rightarrow> (json \<times> jsstring) option"
  and json_elements :: "jsstring \<Rightarrow> json list \<Rightarrow> (json \<times> jsstring) option"
  and json_members :: "jsstring \<Rightarrow> (jsstring \<times> json) list \<Rightarrow> (json \<times> jsstring) option" where
  "json_value s =
     (case skip_ws s of
        [] \<Rightarrow> None
      | c # r \<Rightarrow>
          if c = 123 then
            (case skip_ws r of
               [] \<Rightarrow> None
             | c' # r' \<Rightarrow> if c' = 125 then Some (JObject [], r') else json_members r [])
          else if c = 91 then
            (case skip_ws r of
               [] \<Rightarrow> None
             | c' # r' \<Rightarrow> if c' = 93 then Some (JArray [], r') else json_elements r [])
          else if c = 34 then
            (case json_string r [] of None \<Rightarrow> None | Some (str, r') \<Rightarrow> Some (JString str, r'))
          else if take 4 (c # r) = js ''true'' then Some (JBool True, drop 4 (c # r))
          else if take 5 (c # r) = js ''false'' then Some (JBool False, drop 5 (c # r))
          else if take 4 (c # r) = js ''null'' then Some (JNull, drop 4 (c # r))
          else json_number (c # r))"
| "json_elements s acc =
     (case json_value s of
        None \<Rightarrow> None
      | Some (v, r) \<Rightarrow>
          if length r < length s then
            (case skip_ws r of
               [] \<Rightarrow> None
             | c # r' \<Rightarrow>
                 if c = 44 then json_elements r' (acc @ [v])
                 else if c = 93 then Some (JArray (acc @ [v]), r')
                 else None)
          else None)"
| "json_members s acc =
     (case skip_ws s of
        [] \<Rightarrow> None
      | q # r \<Rightarrow>
          if q = 34 then
            (case json_string r [] of
               None \<Rightarrow> None
             | Some (k, r1) \<Rightarrow>
                 (case skip_ws r1 of
                    [] \<Rightarrow> None
                  | c # r2 \<Rightarrow>
                      if c = 58 then
                        (case json_value r2 of
                           None \<Rightarrow> None
                         | Some (v, r3) \<Rightarrow>
                             if length r3 < length r2 then
                               (case skip_ws r3 of
                                  [] \<Rightarrow> None
                                | c' # r4 \<Rightarrow>
                                    if c' = 44 then json_members r4 (acc @ [(k, v)])
                                    else if c' = 125 then Some (JObject (acc @ [(k, v)]), r4)
                                    else None)
                             else None)
                      else None))
          else None)"
  by pat_completeness auto
termination
proof (relation "measure (\<lambda>x. case x of Inl s \<Rightarrow> 2 * length s
                                     | Inr (Inl (s, _)) \<Rightarrow> 2 * length s + 1
                                     | Inr (Inr (s, _)) \<Rightarrow> 2 * length s + 1)", goal_cases)
  case 1
  then show ?case by simp
next
  case (2 s c r c' r')
  from skip_ws_Cons_length [OF 2(1)] show ?case by simp
next
  case (3 s c r c' r')
  from skip_ws_Cons_length [OF 3(1)] show ?case by simp
next
  case (4 s acc)
  then show ?case by simp
next
  case (5 s acc x v r c r')
  from skip_ws_Cons_length [OF 5(4)] 5(3) show ?case by simp
next
  case (6 s acc q r k_r1 k r1 c r2)
  have a: "length r < length s" using skip_ws_Cons_length [OF 6(1)] .
  have b: "length r1 < length r" using json_string_length [of r "[]" k r1] 6(3,4) by simp
  have c: "length r2 < length r1" using skip_ws_Cons_length [OF 6(5)] .
  from a b c show ?case by simp
next
  case (7 s acc q r k_r1 k r1 c r2 v_r3 v r3 c' r4)
  have a: "length r < length s" using skip_ws_Cons_length [OF 7(1)] .
  have b: "length r1 < length r" using json_string_length [of r "[]" k r1] 7(3,4) by simp
  have c: "length r2 < length r1" using skip_ws_Cons_length [OF 7(5)] .
  have d: "length r4 < length r3" using skip_ws_Cons_length [OF 7(10)] .
  from a b c d 7(9) show ?case by simp
qed

text \<open>\<open>JSON.parse(text)\<close>: one value, white space around it and nothing else;
  \<open>None\<close> is the \<open>SyntaxError\<close>.\<close>

definition JSON_parse :: "jsstring \<Rightarrow> json option" where
  "JSON_parse text =
     (case json_value text of
        None \<Rightarrow> None
      | Some (v, r) \<Rightarrow> if skip_ws r = [] then Some v else None)"

text \<open>The rest of a value is shorter than the text it was read from.\<close>

lemma json_exponent_length: "json_exponent r = Some (k, r') \<Longrightarrow> length r' \<le> length r"
proof -
  assume a: "json_exponent r = Some (k, r')"
  show ?thesis
  proof (cases r)
    case Nil
    with a show ?thesis by (simp add: json_exponent_def)
  next
    case (Cons c ds)
    show ?thesis
    proof (cases "c = 101 \<or> c = 69")
      case False
      with a Cons show ?thesis by (auto simp: json_exponent_def)
    next
      case True
      let ?ds' = "(case ds of [] \<Rightarrow> [] | s # t \<Rightarrow> if s = 45 \<or> s = 43 then t else ds)"
      from a Cons True have "r' = dropWhile is_digit ?ds'"
        by (auto simp: json_exponent_def Let_def split: if_splits)
      moreover have "length (dropWhile is_digit ?ds') \<le> length ?ds'" by (rule length_dropWhile_le)
      moreover have "length ?ds' \<le> length ds" by (cases ds) auto
      ultimately show ?thesis using Cons by simp
    qed
  qed
qed

lemma takeWhile_dropWhile_length: "length (takeWhile P xs) + length (dropWhile P xs) = length xs"
  by (metis length_append takeWhile_dropWhile_id)

lemma json_number_length:
  assumes "json_number s = Some (v, r)"
  shows "length r < length s"
proof -
  let ?neg = "(case s of [] \<Rightarrow> False | c # _ \<Rightarrow> c = 45)"
  let ?s1 = "if ?neg then tl s else s"
  let ?ip = "takeWhile is_digit ?s1"
  let ?r1 = "dropWhile is_digit ?s1"
  let ?dot = "(case ?r1 of [] \<Rightarrow> False | c # _ \<Rightarrow> c = 46)"
  let ?r2 = "if ?dot then dropWhile is_digit (tl ?r1) else ?r1"
  from assms have ip: "?ip \<noteq> []"
    by (auto simp: json_number_def Let_def split: if_splits)
  from assms obtain k where e: "json_exponent ?r2 = Some (k, r)"
    by (auto simp: json_number_def Let_def split: if_splits option.splits)
  from json_exponent_length [OF e] have a: "length r \<le> length ?r2" .
  have b: "length ?r2 \<le> length ?r1"
    using length_dropWhile_le [of is_digit "tl ?r1"] by (auto simp del: length_dropWhile_le)
  from ip takeWhile_dropWhile_length [of is_digit ?s1] have c: "length ?r1 < length ?s1"
    by (cases ?ip) auto
  have d: "length ?s1 \<le> length s" by simp
  from a b c d show ?thesis by linarith
qed

lemma json_value_length:
  "(\<forall>v r. json_value s = Some (v, r) \<longrightarrow> length r < length s)"
  "(\<forall>v r. json_elements s1 acc1 = Some (v, r) \<longrightarrow> length r < length s1)"
  "(\<forall>v r. json_members s2 acc2 = Some (v, r) \<longrightarrow> length r < length s2)"
proof (induction s and s1 acc1 and s2 acc2 rule: json_value_json_elements_json_members.induct)
  case (1 s)
  show ?case
  proof (intro allI impI)
    fix v r assume a: "json_value s = Some (v, r)"
    then obtain c r0 where sk: "skip_ws s = c # r0"
      by (subst (asm) json_value.simps) (auto split: list.splits)
    from skip_ws_Cons_length [OF sk] have l0: "length r0 < length s" .
    consider (obj) "c = 123" | (arr) "c \<noteq> 123" "c = 91" | (str) "c \<noteq> 123" "c \<noteq> 91" "c = 34"
      | (other) "c \<noteq> 123" "c \<noteq> 91" "c \<noteq> 34" by blast
    then show "length r < length s"
    proof cases
      case obj
      from a sk obj obtain c' r' where sk2: "skip_ws r0 = c' # r'"
        by (subst (asm) json_value.simps) (auto split: list.splits)
      show ?thesis
      proof (cases "c' = 125")
        case True
        with a sk obj sk2 have "r = r'" by (subst (asm) json_value.simps) simp
        with skip_ws_Cons_length [OF sk2] l0 show ?thesis by simp
      next
        case False
        with a sk obj sk2 have "json_members r0 [] = Some (v, r)"
          by (subst (asm) json_value.simps) simp
        with "1.IH"(1) [OF sk obj sk2 False] l0 show ?thesis by fastforce
      qed
    next
      case arr
      from a sk arr obtain c' r' where sk2: "skip_ws r0 = c' # r'"
        by (subst (asm) json_value.simps) (auto split: list.splits)
      show ?thesis
      proof (cases "c' = 93")
        case True
        with a sk arr sk2 have "r = r'" by (subst (asm) json_value.simps) simp
        with skip_ws_Cons_length [OF sk2] l0 show ?thesis by simp
      next
        case False
        with a sk arr sk2 have "json_elements r0 [] = Some (v, r)"
          by (subst (asm) json_value.simps) simp
        with "1.IH"(2) [OF sk arr sk2 False] l0 show ?thesis by fastforce
      qed
    next
      case str
      with a sk obtain x where "json_string r0 [] = Some (x, r)"
        by (subst (asm) json_value.simps) (auto split: option.splits)
      from json_string_length [OF this] l0 show ?thesis by simp
    next
      case other
      from skip_ws_length [of s] sk have l1: "length (c # r0) \<le> length s" by simp
      from a sk other have
        "(take 4 (c # r0) = js ''true'' \<and> r = drop 4 (c # r0)) \<or>
         (take 5 (c # r0) = js ''false'' \<and> r = drop 5 (c # r0)) \<or>
         (take 4 (c # r0) = js ''null'' \<and> r = drop 4 (c # r0)) \<or>
         json_number (c # r0) = Some (v, r)"
        by (subst (asm) json_value.simps) (auto split: if_splits)
      with json_number_length [of "c # r0" v r] l1 show ?thesis by auto
    qed
  qed
next
  case (2 s acc)
  show ?case
  proof (intro allI impI)
    fix v r assume a: "json_elements s acc = Some (v, r)"
    then obtain x r1 where jv: "json_value s = Some (x, r1)" and lt: "length r1 < length s"
      by (subst (asm) json_elements.simps) (auto split: option.splits if_splits)
    from a jv lt obtain c r' where sk: "skip_ws r1 = c # r'"
      by (subst (asm) json_elements.simps) (auto split: list.splits)
    from skip_ws_Cons_length [OF sk] lt have l: "length r' < length s" by simp
    show "length r < length s"
    proof (cases "c = 44")
      case True
      with a jv lt sk have "json_elements r' (acc @ [x]) = Some (v, r)"
        by (subst (asm) json_elements.simps) simp
      with "2.IH"(2) [OF jv _ lt sk True] l show ?thesis by fastforce
    next
      case False
      with a jv lt sk have "r = r'"
        by (subst (asm) json_elements.simps) (auto split: if_splits)
      with l show ?thesis by simp
    qed
  qed
next
  case (3 s acc)
  show ?case
  proof (intro allI impI)
    fix v r assume a: "json_members s acc = Some (v, r)"
    then obtain q r0 where sk: "skip_ws s = q # r0" and q: "q = 34"
      by (subst (asm) json_members.simps) (auto split: list.splits if_splits)
    from a sk q obtain k r1 where js: "json_string r0 [] = Some (k, r1)"
      by (subst (asm) json_members.simps) (auto split: option.splits)
    from a sk q js obtain c r2 where sk1: "skip_ws r1 = c # r2" and c: "c = 58"
      by (subst (asm) json_members.simps) (auto split: list.splits if_splits)
    from a sk q js sk1 c obtain x r3 where jv: "json_value r2 = Some (x, r3)"
      and lt: "length r3 < length r2"
      by (subst (asm) json_members.simps) (auto split: option.splits if_splits)
    from a sk q js sk1 c jv lt obtain c' r4 where sk3: "skip_ws r3 = c' # r4"
      by (subst (asm) json_members.simps) (auto split: list.splits)
    from skip_ws_Cons_length [OF sk] json_string_length [OF js] skip_ws_Cons_length [OF sk1] lt
      skip_ws_Cons_length [OF sk3]
    have l: "length r4 < length s" by linarith
    show "length r < length s"
    proof (cases "c' = 44")
      case True
      with a sk q js sk1 c jv lt sk3 have "json_members r4 (acc @ [(k, x)]) = Some (v, r)"
        by (subst (asm) json_members.simps) simp
      with "3.IH"(2) [OF sk q js _ sk1 c jv _ lt sk3 True] l show ?thesis by fastforce
    next
      case False
      with a sk q js sk1 c jv lt sk3 have "r = r4"
        by (subst (asm) json_members.simps) (auto split: if_splits)
      with l show ?thesis by simp
    qed
  qed
qed

subsection \<open>Property access and conversion to a string\<close>

datatype jsvalue = Undefined | Json json

text \<open>
  \<open>v.name\<close> for a value \<open>v\<close> that \<open>JSON.parse\<close> returned and a name that no
  prototype defines (as \<open>error\<close> and \<open>backtrace\<close>): a \<open>TypeError\<close> (\<open>None\<close>) on
  \<open>null\<close>, the member of an object, \<open>undefined\<close> otherwise.
\<close>

fun get_member :: "json \<Rightarrow> jsstring \<Rightarrow> jsvalue option" where
  "get_member JNull name = None"
| "get_member (JObject ms) name =
     Some (case map_of (rev ms) name of None \<Rightarrow> Undefined | Some v \<Rightarrow> Json v)"
| "get_member _ name = Some Undefined"

fun decimal :: "nat \<Rightarrow> jsstring" where
  "decimal n = (if n < 10 then [48 + n] else decimal (n div 10) @ [48 + n mod 10])"

declare decimal.simps [simp del]

text \<open>
  The text of a number \<open>\<plusminus> ds \<times> 10^e\<close> (ECMAScript \<open>Number::toString\<close>, on the
  exact decimal): \<open>s\<close> are the \<open>k\<close> significant digits and \<open>n\<close> the position of the
  decimal point.
\<close>

definition number_toString :: "bool \<Rightarrow> jsstring \<Rightarrow> int \<Rightarrow> jsstring" where
  "number_toString neg ds e =
     (let ds1 = dropWhile (\<lambda>c. c = 48) ds;
          tz = length (takeWhile (\<lambda>c. c = 48) (rev ds1));
          s = take (length ds1 - tz) ds1;
          k = int (length s);
          n = k + e + int tz
      in if s = [] then js ''0''
         else (if neg then [45] else []) @
           (if k \<le> n \<and> n \<le> 21 then s @ replicate (nat (n - k)) 48
            else if 0 < n \<and> n \<le> 21 then take (nat n) s @ [46] @ drop (nat n) s
            else if - 6 < n \<and> n \<le> 0 then [48, 46] @ replicate (nat (- n)) 48 @ s
            else (if k = 1 then s else take 1 s @ [46] @ drop 1 s) @ [101] @
                 (if n - 1 < 0 then [45] else [43]) @ decimal (nat \<bar>n - 1\<bar>)))"

fun join :: "jsstring \<Rightarrow> jsstring list \<Rightarrow> jsstring" where
  "join sep [] = []"
| "join sep [x] = x"
| "join sep (x # y # ys) = x @ sep @ join sep (y # ys)"

text \<open>
  \<open>String(v)\<close>, as a template literal applies it; \<open>None\<close> is a \<open>TypeError\<close>. An array
  is the texts of its elements joined by commas, \<open>null\<close> elements being empty. An object
  is \<open>[object Object]\<close>, unless it has a member \<open>toString\<close>: that member is not a
  function and what \<open>valueOf\<close> returns is no primitive, so the conversion throws.
\<close>

fun json_ToString :: "json \<Rightarrow> jsstring option" where
  "json_ToString JNull = Some (js ''null'')"
| "json_ToString (JBool b) = Some (if b then js ''true'' else js ''false'')"
| "json_ToString (JNumber neg ds e) = Some (number_toString neg ds e)"
| "json_ToString (JString s) = Some s"
| "json_ToString (JArray vs) =
     map_option (join [44])
       (those (map (\<lambda>v. if v = JNull then Some [] else json_ToString v) vs))"
| "json_ToString (JObject ms) =
     (if js ''toString'' \<in> fst ` set ms then None else Some (js ''[object Object]''))"

fun ToString :: "jsvalue \<Rightarrow> jsstring option" where
  "ToString Undefined = Some (js ''undefined'')"
| "ToString (Json v) = json_ToString v"

section \<open>The compositor supervisor\<close>

text \<open>
  The state that \<open>startCompositor\<close> closes over, one field for each variable of the
  source. A promise is known by a number, given in the order of creation; a \<open>Waiter\<close>
  is the pair of callbacks of one promise, so it is kept as the number of that promise.
  \<open>waiters\<close> is the \<open>Map\<close> in insertion order. Two fields are not variables of the
  source: \<open>promises\<close> counts the promises created, and \<open>trace\<close> records, in order,
  what the code did to the outside.
\<close>

datatype error = Error jsstring

datatype statusType = success | error

datatype RunningStatus = Running | QuitWithError jsstring | QuitWithoutError

datatype stdin_line =
    Request jsstring jsstring jsstring
  | EOF

datatype effect =
    Message statusType jsstring bytes
  | VerboseLog jsstring jsstring
  | Resolve nat "bytes option"
  | Reject nat error
  | StdinWrite stdin_line

text \<open>
  \<open>Message\<close> is a call of \<open>onMessage\<close> with its arguments, \<open>VerboseLog tag text\<close> a
  call of \<open>Log.verboseAdvanced\<close>, \<open>Resolve p v\<close> and \<open>Reject p e\<close> a call of the
  resolve or the reject callback of promise \<open>p\<close> (a promise takes the first call made
  on it and ignores the later ones), \<open>StdinWrite\<close> a write to the child's standard
  input: \<open>Request nonce type params\<close> stands for the line
  \<open>JSON.stringify({nonce, payload: {type, params}}) + '\n'\<close>.
\<close>

record state =
  stderrChunks :: "bytes list"
  outputBuffer :: bytes
  waiters :: "(jsstring \<times> nat) list"
  runningStatus :: RunningStatus
  missingData :: "number option"
  unprocessedBuffers :: "bytes list"
  resolve :: "nat option"
  reject :: "nat option"
  promises :: nat
  trace :: "effect list"

definition startCompositor :: state where
  "startCompositor =
     \<lparr>stderrChunks = [], outputBuffer = [], waiters = [], runningStatus = Running,
      missingData = None, unprocessedBuffers = [], resolve = None, reject = None,
      promises = 0, trace = []\<rparr>"

definition separator :: bytes where
  "separator = ''remotion_buffer:''"

definition emit :: "effect \<Rightarrow> state \<Rightarrow> state" where
  "emit e st = st\<lparr>trace := trace st @ [e]\<rparr>"

subsection \<open>\<open>onMessage\<close>\<close>

text \<open>
  The message of the \<open>try\<close> block: \<open>None\<close> when \<open>JSON.parse\<close>, the access to a
  property of \<open>null\<close> or the conversion to a string throws, which the \<open>catch\<close> takes.
\<close>

definition compositor_error :: "jsstring \<Rightarrow> jsstring option" where
  "compositor_error text =
     do {
       parsed \<leftarrow> JSON_parse text;
       e \<leftarrow> get_member parsed (js ''error'');
       es \<leftarrow> ToString e;
       b \<leftarrow> get_member parsed (js ''backtrace'');
       bs \<leftarrow> ToString b;
       Some (js ''Compositor error: '' @ es @ [10] @ bs)
     }"

definition onMessage :: "statusType \<Rightarrow> jsstring \<Rightarrow> bytes \<Rightarrow> state \<Rightarrow> state" where
  "onMessage status nonce data st0 =
     (let st = emit (Message status nonce data) st0;
          st1 = (if nonce = js ''0''
                 then emit (VerboseLog (js ''compositor'') (toString_utf8 data)) st
                 else st)
      in case map_of (waiters st1) nonce of
           None \<Rightarrow> st1
         | Some w \<Rightarrow>
             let st2 =
               (if status = error then
                  (case compositor_error (toString_utf8 data) of
                     Some msg \<Rightarrow> emit (Reject w (Error msg)) st1
                   | None \<Rightarrow> emit (Reject w (Error (toString_utf8 data))) st1)
                else emit (Resolve w (Some data)) st1)
             in st2\<lparr>waiters := AList.delete nonce (waiters st2)\<rparr>)"

subsection \<open>\<open>processInput\<close>\<close>

text \<open>
  Each of the three \<open>while (true)\<close> loops reads bytes from index \<open>i\<close> until it meets a
  colon, appending \<open>String.fromCharCode\<close> of what it read: \<open>scan\<close> returns the index of
  that colon and the string. The first two loops step over the colon before they leave,
  the third does not. Nothing in the loop looks at the length of the buffer: past the end
  \<open>buf[i]\<close> is \<open>undefined\<close>, never a colon, and the loop goes on. A loop or a recursion
  that does not return is the value \<open>None\<close> (in a JavaScript engine it runs until
  the string or the stack exceeds the engine's limit and a \<open>RangeError\<close> leaves the
  handler).
\<close>

partial_function (option) scan :: "bytes \<Rightarrow> nat \<Rightarrow> jsstring \<Rightarrow> (nat \<times> jsstring) option" where
  "scan buf i acc =
     (if byte_at buf i = Some CHR '':'' then Some (i, acc)
      else scan buf (i + 1) (acc @ fromCharCode (byte_at buf i)))"

declare scan.simps [code]

partial_function (option) processInput :: "state \<Rightarrow> state option" where
  "processInput st =
     (case indexOf (outputBuffer st) separator of
        None \<Rightarrow> Some st
      | Some idx \<Rightarrow>
          do {
            (i1, nonceString) \<leftarrow> scan (outputBuffer st) (idx + length separator) [];
            (i2, lengthString) \<leftarrow> scan (outputBuffer st) (i1 + 1) [];
            (separatorIndex, statusString) \<leftarrow> scan (outputBuffer st) (i2 + 1) [];
            if num_less (Fin (of_int (int (length (outputBuffer st)) - int separatorIndex - 1)))
                 (Number lengthString)
            then Some (st\<lparr>missingData :=
                   Some (num_sub (Number lengthString)
                     (Fin (of_int (int (length (outputBuffer st)) - int separatorIndex - 1))))\<rparr>)
            else
              processInput
                ((onMessage (if Number statusString = num 1 then error else success) nonceString
                    (subarray (outputBuffer st) (num (separatorIndex + 1))
                       (Some (num_add (num (separatorIndex + 1)) (Number lengthString))))
                    st)
                 \<lparr>missingData := None,
                  outputBuffer :=
                    subarray (outputBuffer st)
                      (num_add (num_add (num separatorIndex) (Number lengthString)) (num 1)) None\<rparr>)
          })"

declare processInput.simps [code]

subsection \<open>The handlers of the child's streams and exit\<close>

definition concat_and_process :: "state \<Rightarrow> state option" where
  "concat_and_process st =
     processInput
       (st\<lparr>outputBuffer := concat (outputBuffer st # unprocessedBuffers st),
           unprocessedBuffers := []\<rparr>)"

definition stdout_data :: "bytes \<Rightarrow> state \<Rightarrow> state option" where
  "stdout_data data st0 =
     (let st = st0\<lparr>unprocessedBuffers := unprocessedBuffers st0 @ [data]\<rparr> in
      case indexOf data separator of
        None \<Rightarrow>
          (let st1 = (case missingData st of
                        None \<Rightarrow> st
                      | Some m \<Rightarrow> st\<lparr>missingData := Some (num_sub m (num (length data)))\<rparr>)
           in if (case missingData st1 of None \<Rightarrow> True | Some m \<Rightarrow> num_less (num 0) m)
              then Some st1
              else concat_and_process st1)
      | Some _ \<Rightarrow> concat_and_process st)"

definition stderr_data :: "bytes \<Rightarrow> state \<Rightarrow> state" where
  "stderr_data data st = st\<lparr>stderrChunks := stderrChunks st @ [data]\<rparr>"

text \<open>The exit code of the \<open>close\<close> event is a number, or \<open>null\<close> (\<open>None\<close>) when a
  signal ended the child.\<close>

definition close :: "int option \<Rightarrow> state \<Rightarrow> state" where
  "close code st =
     (let waitersToKill = map snd (waiters st) in
      if code = Some 0 then
        (let st1 = st\<lparr>runningStatus := QuitWithoutError\<rparr>;
             st2 = (case resolve st1 of None \<Rightarrow> st1 | Some p \<Rightarrow> emit (Resolve p None) st1);
             st3 = foldl (\<lambda>s w. emit (Reject w (Error (js ''Compositor already quit''))) s)
                     st2 waitersToKill
         in st3\<lparr>waiters := []\<rparr>)
      else
        (let errorMessage = toString_utf8 (concat (stderrChunks st));
             st1 = st\<lparr>runningStatus := QuitWithError errorMessage\<rparr>;
             err = Error (js ''Compositor panicked: '' @ errorMessage);
             st2 = foldl (\<lambda>s w. emit (Reject w err) s) st1 waitersToKill;
             st3 = st2\<lparr>waiters := []\<rparr>
         in case reject st3 of None \<Rightarrow> st3 | Some p \<Rightarrow> emit (Reject p err) st3))"

subsection \<open>The returned object\<close>

text \<open>\<open>waitForDone\<close> returns a new promise; its executor runs at once.\<close>

definition waitForDone :: "state \<Rightarrow> nat \<times> state" where
  "waitForDone st0 =
     (let p = promises st0; st = st0\<lparr>promises := p + 1\<rparr> in
      case runningStatus st of
        QuitWithoutError \<Rightarrow> (p, emit (Reject p (Error (js ''Compositor already quit''))) st)
      | QuitWithError e \<Rightarrow>
          (p, emit (Reject p (Error (js ''Compositor already quit: '' @ e))) st)
      | Running \<Rightarrow> (p, st\<lparr>resolve := Some p, reject := Some p\<rparr>))"

text \<open>A \<open>throw\<close> is the left part of the result.\<close>

definition finishCommands :: "state \<Rightarrow> error + state" where
  "finishCommands st =
     (case runningStatus st of
        QuitWithError e \<Rightarrow> Inl (Error (js ''Compositor already quit: '' @ e))
      | QuitWithoutError \<Rightarrow> Inl (Error (js ''Compositor already quit''))
      | Running \<Rightarrow> Inr (emit (StdinWrite EOF) st))"

text \<open>
  \<open>executeCommand\<close>; \<open>nonce\<close> is what \<open>makeNonce()\<close> returns in this call, \<open>command\<close>
  and \<open>params\<close> the JSON texts of the two arguments.
\<close>

definition executeCommand :: "jsstring \<Rightarrow> jsstring \<Rightarrow> jsstring \<Rightarrow> state \<Rightarrow> error + nat \<times> state" where
  "executeCommand nonce command params st =
     (case runningStatus st of
        QuitWithoutError \<Rightarrow> Inl (Error (js ''Compositor already quit''))
      | QuitWithError e \<Rightarrow> Inl (Error (js ''Compositor quit: '' @ e))
      | Running \<Rightarrow>
          (let p = promises st;
               st1 = emit (StdinWrite (Request nonce command params)) (st\<lparr>promises := p + 1\<rparr>)
           in Inr (p, st1\<lparr>waiters := AList.update nonce p (waiters st1)\<rparr>)))"

subsection \<open>Runs\<close>

text \<open>
  What can happen to a compositor: a call of one of its three functions, a chunk on one
  of the child's output streams, the child's \<open>close\<close> event. A call that throws leaves
  the state as it was. \<open>run\<close> is \<open>None\<close> when a handler does not return.
\<close>

datatype event =
    ExecuteCommand jsstring jsstring jsstring
  | FinishCommands
  | WaitForDone
  | StdoutData bytes
  | StderrData bytes
  | Close "int option"

fun step :: "event \<Rightarrow> state \<Rightarrow> state option" where
  "step (ExecuteCommand nonce command params) st =
     (case executeCommand nonce command params st of
        Inl _ \<Rightarrow> Some st
      | Inr (_, st') \<Rightarrow> Some st')"
| "step FinishCommands st = (case finishCommands st of Inl _ \<Rightarrow> Some st | Inr st' \<Rightarrow> Some st')"
| "step WaitForDone st = Some (snd (waitForDone st))"
| "step (StdoutData data) st = stdout_data data st"
| "step (StderrData data) st = Some (stderr_data data st)"
| "step (Close code) st = Some (close code st)"

fun run :: "event list \<Rightarrow> state \<Rightarrow> state option" where
  "run [] st = Some st"
| "run (e # es) st = (case step e st of None \<Rightarrow> None | Some st' \<Rightarrow> run es st')"

text \<open>The nonce that \<open>makeNonce\<close> returned to the command of an event, if it is one.\<close>

fun requested :: "event \<Rightarrow> jsstring option" where
  "requested (ExecuteCommand nonce _ _) = Some nonce"
| "requested _ = None"

text \<open>The calls made on the callbacks of promise \<open>p\<close>, in order.\<close>

fun settles :: "nat \<Rightarrow> effect \<Rightarrow> bool" where
  "settles p (Resolve q _) = (q = p)"
| "settles p (Reject q _) = (q = p)"
| "settles p _ = False"

definition calls :: "nat \<Rightarrow> effect list \<Rightarrow> effect list" where
  "calls p tr = filter (settles p) tr"

section \<open>Properties\<close>

subsection \<open>What \<open>onMessage\<close> and the parser leave alone\<close>

lemma onMessage_fields:
  "runningStatus (onMessage status nonce data st) = runningStatus st"
  "stderrChunks (onMessage status nonce data st) = stderrChunks st"
  "outputBuffer (onMessage status nonce data st) = outputBuffer st"
  "missingData (onMessage status nonce data st) = missingData st"
  "unprocessedBuffers (onMessage status nonce data st) = unprocessedBuffers st"
  "resolve (onMessage status nonce data st) = resolve st"
  "reject (onMessage status nonce data st) = reject st"
  "promises (onMessage status nonce data st) = promises st"
  by (simp_all add: onMessage_def emit_def Let_def split: option.split)

lemma delete_absent: "map_of ws k = None \<Longrightarrow> AList.delete k ws = ws"
  by (induction ws) (auto split: if_splits)

lemma onMessage_waiters:
  "waiters (onMessage status nonce data st) = AList.delete nonce (waiters st)"
  by (simp add: onMessage_def emit_def Let_def delete_absent split: option.split)

lemma processInput_invariant:
  assumes "processInput st = Some st'" and "Q st"
    and msg: "\<And>s status nonce data. Q s \<Longrightarrow> Q (onMessage status nonce data s)"
    and miss: "\<And>s m. Q s \<Longrightarrow> Q (s\<lparr>missingData := m\<rparr>)"
    and buf: "\<And>s b. Q s \<Longrightarrow> Q (s\<lparr>outputBuffer := b\<rparr>)"
  shows "Q st'"
proof -
  have "Q st \<longrightarrow> Q st'"
  proof (rule processInput.raw_induct [where P = "\<lambda>x y. Q x \<longrightarrow> Q y", OF _ assms(1)], goal_cases)
    case (1 f s s')
    show ?case
    proof
      assume q: "Q s"
      show "Q s'"
      proof (cases "indexOf (outputBuffer s) separator")
        case None
        with 1(2) q show ?thesis by simp
      next
        case (Some idx)
        with 1(2) obtain i1 n i2 l i3 t where
          body: "(if num_less (Fin (of_int (int (length (outputBuffer s)) - int i3 - 1))) (Number l)
             then Some (s\<lparr>missingData :=
                   Some (num_sub (Number l)
                     (Fin (of_int (int (length (outputBuffer s)) - int i3 - 1))))\<rparr>)
             else f ((onMessage (if Number t = num 1 then error else success) n
                    (subarray (outputBuffer s) (num (i3 + 1))
                       (Some (num_add (num (i3 + 1)) (Number l))))
                    s)
                 \<lparr>missingData := None,
                  outputBuffer :=
                    subarray (outputBuffer s)
                      (num_add (num_add (num i3) (Number l)) (num 1)) None\<rparr>)) = Some s'"
          by (auto simp: bind_eq_Some_conv)
        let ?X = "(onMessage (if Number t = num 1 then error else success) n
                    (subarray (outputBuffer s) (num (i3 + 1))
                       (Some (num_add (num (i3 + 1)) (Number l))))
                    s)
                 \<lparr>missingData := None,
                  outputBuffer :=
                    subarray (outputBuffer s)
                      (num_add (num_add (num i3) (Number l)) (num 1)) None\<rparr>"
        show ?thesis
        proof (cases "num_less (Fin (of_int (int (length (outputBuffer s)) - int i3 - 1))) (Number l)")
          case True
          with body have "s' = s\<lparr>missingData :=
                   Some (num_sub (Number l)
                     (Fin (of_int (int (length (outputBuffer s)) - int i3 - 1))))\<rparr>"
            by (simp only: if_True option.inject)
          with miss [OF q] show ?thesis by simp
        next
          case False
          with body have "f ?X = Some s'" by (simp only: if_False)
          from 1(1) [OF this] have "Q ?X \<longrightarrow> Q s'" .
          moreover have "Q ?X" by (intro buf miss msg q)
          ultimately show ?thesis by simp
        qed
      qed
    qed
  qed
  with assms(2) show ?thesis by simp
qed

lemma stdout_data_invariant:
  assumes "stdout_data data st = Some st'" and "Q st"
    and msg: "\<And>s status nonce data. Q s \<Longrightarrow> Q (onMessage status nonce data s)"
    and miss: "\<And>s m. Q s \<Longrightarrow> Q (s\<lparr>missingData := m\<rparr>)"
    and buf: "\<And>s b. Q s \<Longrightarrow> Q (s\<lparr>outputBuffer := b\<rparr>)"
    and unp: "\<And>s u. Q s \<Longrightarrow> Q (s\<lparr>unprocessedBuffers := u\<rparr>)"
  shows "Q st'"
proof -
  let ?st = "st\<lparr>unprocessedBuffers := unprocessedBuffers st @ [data]\<rparr>"
  have q0: "Q ?st" by (intro unp assms(2))
  have cp: "\<And>s. Q s \<Longrightarrow> concat_and_process s = Some st' \<Longrightarrow> Q st'"
  proof -
    fix s assume qs: "Q s" and c: "concat_and_process s = Some st'"
    have "Q (s\<lparr>outputBuffer := concat (outputBuffer s # unprocessedBuffers s),
                unprocessedBuffers := []\<rparr>)"
      by (intro unp buf qs)
    from processInput_invariant [OF c [unfolded concat_and_process_def] this msg miss buf]
    show "Q st'" by simp
  qed
  show ?thesis
  proof (cases "indexOf data separator")
    case (Some i)
    with assms(1) have "concat_and_process ?st = Some st'"
      by (simp add: stdout_data_def)
    from cp [OF q0 this] show ?thesis .
  next
    case None
    show ?thesis
    proof (cases "missingData st")
      case n: None
      with None assms(1) have "st' = ?st" by (simp add: stdout_data_def)
      with q0 show ?thesis by simp
    next
      case (Some m)
      let ?st1 = "?st\<lparr>missingData := Some (num_sub m (num (length data)))\<rparr>"
      have q1: "Q ?st1" by (intro miss q0)
      show ?thesis
      proof (cases "num_less (num 0) (num_sub m (num (length data)))")
        case True
        with None Some assms(1) have "st' = ?st1" by (simp add: stdout_data_def)
        with q1 show ?thesis by simp
      next
        case False
        with None Some assms(1) have "concat_and_process ?st1 = Some st'"
          by (simp add: stdout_data_def)
        from cp [OF q1 this] show ?thesis .
      qed
    qed
  qed
qed

subsection \<open>The effects of the handlers\<close>

lemma foldl_emit:
  "foldl (\<lambda>s w. s\<lparr>trace := trace s @ [f w]\<rparr>) st ws = st\<lparr>trace := trace st @ map f ws\<rparr>"
  by (induction ws arbitrary: st) simp_all

lemma close_fields:
  "waiters (close code st) = []"
  "runningStatus (close code st) =
     (if code = Some 0 then QuitWithoutError
      else QuitWithError (toString_utf8 (concat (stderrChunks st))))"
  "promises (close code st) = promises st"
  "resolve (close code st) = resolve st"
  "reject (close code st) = reject st"
  "stderrChunks (close code st) = stderrChunks st"
  by (simp_all add: close_def Let_def foldl_emit emit_def split: option.split)

lemma close_trace:
  "trace (close code st) = trace st @
     (if code = Some 0 then
        (case resolve st of None \<Rightarrow> [] | Some p \<Rightarrow> [Resolve p None]) @
        map (\<lambda>w. Reject w (Error (js ''Compositor already quit''))) (map snd (waiters st))
      else
        map (\<lambda>w. Reject w (Error (js ''Compositor panicked: '' @ toString_utf8 (concat (stderrChunks st)))))
          (map snd (waiters st)) @
        (case reject st of None \<Rightarrow> []
         | Some p \<Rightarrow> [Reject p (Error (js ''Compositor panicked: '' @ toString_utf8 (concat (stderrChunks st))))]))"
  by (simp add: close_def Let_def foldl_emit emit_def split: option.split)

lemma onMessage_trace:
  "trace (onMessage status nonce data st) = trace st @
     Message status nonce data #
     (if nonce = js ''0'' then [VerboseLog (js ''compositor'') (toString_utf8 data)] else []) @
     (case map_of (waiters st) nonce of
        None \<Rightarrow> []
      | Some w \<Rightarrow>
          [if status = error then
             Reject w (Error (case compositor_error (toString_utf8 data) of
                                Some msg \<Rightarrow> msg | None \<Rightarrow> toString_utf8 data))
           else Resolve w (Some data)])"
  by (simp add: onMessage_def emit_def Let_def split: option.split)




subsection \<open>After the child has closed\<close>

definition two_pending :: state where
  "two_pending =
     startCompositor
       \<lparr>stderrChunks := [''bo'', ''om''], waiters := [(js ''a'', 0), (js ''b'', 1)], promises := 2\<rparr>"



subsection \<open>Promises are numbered in the order of creation\<close>

fun below :: "nat \<Rightarrow> effect \<Rightarrow> bool" where
  "below n (Resolve p _) = (p < n)"
| "below n (Reject p _) = (p < n)"
| "below n _ = True"

definition fresh :: "state \<Rightarrow> bool" where
  "fresh st \<longleftrightarrow>
     list_all (below (promises st)) (trace st) \<and>
     list_all (\<lambda>w. w < promises st) (map snd (waiters st)) \<and>
     (\<forall>p. resolve st = Some p \<longrightarrow> p < promises st) \<and>
     (\<forall>p. reject st = Some p \<longrightarrow> p < promises st)"

lemma below_mono: "below n e \<Longrightarrow> n \<le> m \<Longrightarrow> below m e"
  by (cases e) auto

lemma list_all_below_mono: "list_all (below n) tr \<Longrightarrow> n \<le> m \<Longrightarrow> list_all (below m) tr"
  by (induction tr) (auto intro: below_mono)

lemma map_of_bound:
  "map_of ws k = Some w \<Longrightarrow> list_all (\<lambda>w. w < n) (map snd ws) \<Longrightarrow> w < n"
  by (induction ws) (auto split: if_splits)

lemma delete_bound:
  "list_all (\<lambda>w. w < n) (map snd ws) \<Longrightarrow> list_all (\<lambda>w. w < n) (map snd (AList.delete k ws))"
  by (induction ws) auto

lemma update_bound:
  "list_all (\<lambda>w. w < n) (map snd ws) \<Longrightarrow> v < n \<Longrightarrow> list_all (\<lambda>w. w < n) (map snd (AList.update k v ws))"
  by (induction ws) auto

lemma bound_mono:
  "list_all (\<lambda>w. w < n) ws \<Longrightarrow> n \<le> m \<Longrightarrow> list_all (\<lambda>w. w < (m::nat)) ws"
  by (induction ws) auto

lemma below_Suc: "list_all (below n) tr \<Longrightarrow> list_all (below (Suc n)) tr"
  by (erule list_all_below_mono) simp

lemma bound_Suc: "list_all (\<lambda>w. w < n) ws \<Longrightarrow> list_all (\<lambda>w. w < Suc n) ws"
  by (erule bound_mono) simp

lemma fresh_onMessage: "fresh s \<Longrightarrow> fresh (onMessage status nonce data s)"
  unfolding fresh_def onMessage_fields onMessage_waiters onMessage_trace
  by (auto split: option.splits intro: delete_bound map_of_bound)

lemma rejects_below:
  "list_all (\<lambda>w. w < n) (map snd ws) \<Longrightarrow>
   list_all (below n) (map ((\<lambda>w. Reject w e) \<circ> snd) ws)"
  by (induction ws) auto

lemma fresh_promises: "fresh st \<Longrightarrow> fresh (st\<lparr>promises := Suc (promises st)\<rparr>)"
  by (auto simp: fresh_def intro: below_Suc bound_Suc less_SucI)

lemma fresh_emit: "fresh st \<Longrightarrow> below (promises st) e \<Longrightarrow> fresh (emit e st)"
  by (simp add: fresh_def emit_def)

lemma fresh_stored:
  "fresh st \<Longrightarrow> p < promises st \<Longrightarrow> fresh (st\<lparr>resolve := Some p, reject := Some p\<rparr>)"
  by (simp add: fresh_def)

lemma fresh_update:
  "fresh st \<Longrightarrow> p < promises st \<Longrightarrow> fresh (st\<lparr>waiters := AList.update n p (waiters st)\<rparr>)"
  by (simp add: fresh_def update_bound)

lemma fresh_executeCommand:
  assumes "executeCommand n c q st = Inr (p, st')" and "fresh st"
  shows "fresh st'"
proof -
  let ?s1 = "emit (StdinWrite (Request n c q)) (st\<lparr>promises := Suc (promises st)\<rparr>)"
  from assms(1) have st': "st' = ?s1\<lparr>waiters := AList.update n (promises st) (waiters ?s1)\<rparr>"
    by (auto simp: executeCommand_def Let_def split: RunningStatus.splits)
  have "fresh ?s1" by (intro fresh_emit fresh_promises assms(2)) simp
  then show ?thesis unfolding st' by (rule fresh_update) (simp add: emit_def)
qed

lemma fresh_waitForDone:
  assumes "fresh st"
  shows "fresh (snd (waitForDone st))"
proof -
  let ?s = "st\<lparr>promises := Suc (promises st)\<rparr>"
  have f: "fresh ?s" by (intro fresh_promises assms)
  show ?thesis
  proof (cases "runningStatus st")
    case Running
    then have "snd (waitForDone st) = ?s\<lparr>resolve := Some (promises st), reject := Some (promises st)\<rparr>"
      by (simp add: waitForDone_def Let_def)
    with fresh_stored [OF f, of "promises st"] show ?thesis by simp
  next
    case (QuitWithError x)
    then have "snd (waitForDone st) =
        emit (Reject (promises st) (Error (js ''Compositor already quit: '' @ x))) ?s"
      by (simp add: waitForDone_def Let_def)
    with fresh_emit [OF f, of "Reject (promises st) (Error (js ''Compositor already quit: '' @ x))"]
    show ?thesis by simp
  next
    case QuitWithoutError
    then have "snd (waitForDone st) =
        emit (Reject (promises st) (Error (js ''Compositor already quit''))) ?s"
      by (simp add: waitForDone_def Let_def)
    with fresh_emit [OF f, of "Reject (promises st) (Error (js ''Compositor already quit''))"]
    show ?thesis by simp
  qed
qed

lemma fresh_close: "fresh st \<Longrightarrow> fresh (close code st)"
  by (auto simp: fresh_def close_fields close_trace rejects_below split: option.splits)

lemma fresh_step:
  assumes "step e st = Some st'" and "fresh st"
  shows "fresh st'"
proof (cases e)
  case (ExecuteCommand n c q)
  with assms show ?thesis
    by (auto split: sum.splits dest: fresh_executeCommand)
next
  case FinishCommands
  with assms show ?thesis
    by (auto simp: fresh_def finishCommands_def emit_def split: RunningStatus.splits)
next
  case WaitForDone
  with assms fresh_waitForDone [of st] show ?thesis by auto
next
  case (StdoutData d)
  with assms have "stdout_data d st = Some st'" by simp
  from this assms(2) show ?thesis
    by (rule stdout_data_invariant) (simp_all add: fresh_onMessage, simp_all add: fresh_def)
next
  case (StderrData d)
  with assms show ?thesis by (auto simp: fresh_def stderr_data_def)
next
  case (Close code)
  with assms fresh_close [of st code] show ?thesis by auto
qed

lemma fresh_run: "run es st = Some st' \<Longrightarrow> fresh st \<Longrightarrow> fresh st'"
  by (induction es arbitrary: st) (auto split: option.splits dest: fresh_step)

lemma fresh_start: "fresh startCompositor"
  by (simp add: fresh_def startCompositor_def)

lemma below_settles: "below n e \<Longrightarrow> settles p e \<Longrightarrow> p < n"
  by (cases e) auto

lemma fresh_calls: "fresh st \<Longrightarrow> promises st \<le> p \<Longrightarrow> calls p (trace st) = []"
  unfolding fresh_def calls_def filter_empty_conv list_all_iff
  using below_settles by fastforce


subsection \<open>The promise of \<open>waitForDone\<close>\<close>

text \<open>The outcome of a promise is the first call made on one of its callbacks.\<close>

definition outcome :: "nat \<Rightarrow> effect list \<Rightarrow> effect option" where
  "outcome p tr = (case calls p tr of [] \<Rightarrow> None | e # _ \<Rightarrow> Some e)"

definition waiting :: "nat \<Rightarrow> (jsstring \<times> nat) list \<Rightarrow> bool" where
  "waiting p ws \<longleftrightarrow> p \<in> snd ` set ws"

definition uncalled :: "nat \<Rightarrow> state \<Rightarrow> bool" where
  "uncalled p st \<longleftrightarrow>
     p < promises st \<and> \<not> waiting p (waiters st) \<and> calls p (trace st) = []"

lemma waiting_Nil [simp]: "\<not> waiting p []"
  by (simp add: waiting_def)

lemma waiting_delete: "waiting p (AList.delete k ws) \<Longrightarrow> waiting p ws"
  by (auto simp: waiting_def AList.delete_eq)

lemma waiting_update: "waiting p (AList.update k v ws) \<Longrightarrow> p \<noteq> v \<Longrightarrow> waiting p ws"
  unfolding waiting_def by (induction ws) (auto split: if_splits)

lemma map_of_waiting: "map_of ws k = Some w \<Longrightarrow> waiting w ws"
  unfolding waiting_def by (induction ws) (auto split: if_splits)

lemma fresh_waiting: "fresh st \<Longrightarrow> waiting p (waiters st) \<Longrightarrow> p < promises st"
  by (auto simp: fresh_def waiting_def list_all_iff)

lemma calls_append [simp]: "calls p (xs @ ys) = calls p xs @ calls p ys"
  by (simp add: calls_def)

lemma calls_Nil [simp]: "calls p [] = []"
  by (simp add: calls_def)

lemma calls_Cons: "calls p (e # tr) = (if settles p e then e # calls p tr else calls p tr)"
  by (simp add: calls_def)

lemma calls_rejects:
  "calls p (map ((\<lambda>w. Reject w e) \<circ> snd) ws) = replicate (count_list (map snd ws) p) (Reject p e)"
  by (induction ws) (auto simp: calls_Cons)

lemma count_list_0: "\<not> waiting p ws \<Longrightarrow> count_list (map snd ws) p = 0"
  unfolding waiting_def by (induction ws) auto

lemma uncalled_onMessage: "uncalled p s \<Longrightarrow> uncalled p (onMessage status nonce data s)"
  unfolding uncalled_def onMessage_fields onMessage_waiters onMessage_trace
  by (auto simp: calls_Cons split: option.splits dest: map_of_waiting waiting_delete)

lemma status_step:
  assumes "step e st = Some st'" and "runningStatus st \<noteq> Running"
  shows "runningStatus st' \<noteq> Running"
proof (cases e)
  case (ExecuteCommand n c p)
  with assms show ?thesis
    by (auto simp: executeCommand_def split: RunningStatus.splits)
next
  case FinishCommands
  with assms show ?thesis
    by (auto simp: finishCommands_def split: RunningStatus.splits)
next
  case WaitForDone
  with assms show ?thesis
    by (auto simp: waitForDone_def emit_def Let_def split: RunningStatus.splits)
next
  case (StdoutData d)
  with assms have "stdout_data d st = Some st'" by simp
  from this assms(2) show ?thesis
    by (rule stdout_data_invariant) (simp_all add: onMessage_fields)
next
  case (StderrData d)
  with assms show ?thesis by (auto simp: stderr_data_def)
next
  case (Close code)
  with assms show ?thesis by (auto simp: close_fields split: if_splits)
qed

lemma status_run:
  "run es st = Some st' \<Longrightarrow> runningStatus st \<noteq> Running \<Longrightarrow> runningStatus st' \<noteq> Running"
  by (induction es arbitrary: st) (auto split: option.splits dest: status_step)

lemma uncalled_step:
  assumes "step e st = Some st'" and "runningStatus st' = Running" and "uncalled p st"
  shows "uncalled p st'"
proof (cases e)
  case (ExecuteCommand n c q)
  with assms show ?thesis
    by (auto simp: uncalled_def executeCommand_def emit_def Let_def calls_Cons
        split: RunningStatus.splits dest: waiting_update)
next
  case FinishCommands
  with assms show ?thesis
    by (auto simp: uncalled_def finishCommands_def emit_def calls_Cons split: RunningStatus.splits)
next
  case WaitForDone
  with assms show ?thesis
    by (auto simp: uncalled_def waitForDone_def emit_def Let_def split: RunningStatus.splits)
next
  case (StdoutData d)
  with assms have "stdout_data d st = Some st'" by simp
  from this assms(3) show ?thesis
    by (rule stdout_data_invariant) (simp_all add: uncalled_onMessage, simp_all add: uncalled_def)
next
  case (StderrData d)
  with assms show ?thesis by (auto simp: uncalled_def stderr_data_def)
next
  case (Close code)
  with assms show ?thesis by (auto simp: close_fields split: if_splits)
qed

lemma stored_step:
  assumes "step e st = Some st'" and "e \<noteq> WaitForDone"
  shows "resolve st' = resolve st \<and> reject st' = reject st"
proof (cases e)
  case (ExecuteCommand n c q)
  with assms show ?thesis
    by (auto simp: executeCommand_def emit_def Let_def split: RunningStatus.splits)
next
  case FinishCommands
  with assms show ?thesis
    by (auto simp: finishCommands_def emit_def split: RunningStatus.splits)
next
  case WaitForDone
  with assms show ?thesis by simp
next
  case (StdoutData d)
  with assms have "stdout_data d st = Some st'" by simp
  then show ?thesis
    by (rule stdout_data_invariant [where Q = "\<lambda>s. resolve s = resolve st \<and> reject s = reject st"])
       (simp_all add: onMessage_fields)
next
  case (StderrData d)
  with assms show ?thesis by (auto simp: stderr_data_def)
next
  case (Close code)
  with assms show ?thesis by (auto simp: close_fields)
qed

lemma running_run:
  assumes "run es st = Some st'" and "runningStatus st' = Running" and "uncalled p st"
  shows "uncalled p st' \<and> (WaitForDone \<notin> set es \<longrightarrow> resolve st' = resolve st \<and> reject st' = reject st)"
  using assms
proof (induction es arbitrary: st)
  case Nil
  then show ?case by simp
next
  case (Cons e es)
  from Cons.prems(1) obtain s1 where s1: "step e st = Some s1" and r: "run es s1 = Some st'"
    by (auto split: option.splits)
  from status_run [OF r] Cons.prems(2) have run1: "runningStatus s1 = Running" by auto
  from uncalled_step [OF s1 run1 Cons.prems(3)] have u1: "uncalled p s1" .
  from Cons.IH [OF r Cons.prems(2) u1] stored_step [OF s1] show ?case by auto
qed

lemma installed_settles:
  assumes "uncalled p s" and "resolve s = Some p" and "reject s = Some p"
  shows "outcome p (trace (close (Some 0) s)) = Some (Resolve p None) \<and>
         (code \<noteq> Some 0 \<longrightarrow> outcome p (trace (close code s)) =
           Some (Reject p (Error (js ''Compositor panicked: '' @
                                  toString_utf8 (concat (stderrChunks s))))))"
  using assms
  by (simp add: outcome_def uncalled_def close_trace calls_Cons calls_rejects count_list_0)

lemma waitForDone_promise: "waitForDone st = (p, st') \<Longrightarrow> p = promises st"
  by (auto simp: waitForDone_def Let_def split: RunningStatus.splits)

lemma waitForDone_running:
  assumes "fresh st" and "runningStatus st = Running"
  shows "waitForDone st =
           (promises st, st\<lparr>promises := Suc (promises st), resolve := Some (promises st),
                            reject := Some (promises st)\<rparr>)"
    and "uncalled (promises st) (snd (waitForDone st))"
proof -
  show w: "waitForDone st =
           (promises st, st\<lparr>promises := Suc (promises st), resolve := Some (promises st),
                            reject := Some (promises st)\<rparr>)"
    using assms(2) by (simp add: waitForDone_def Let_def)
  from fresh_waiting [OF assms(1), of "promises st"]
  have "\<not> waiting (promises st) (waiters st)" by auto
  with fresh_calls [OF assms(1), of "promises st"] show "uncalled (promises st) (snd (waitForDone st))"
    by (simp add: w uncalled_def)
qed

lemma utf8_boom: "toString_utf8 ''boom'' = js ''boom''"
  by (simp add: toString_utf8_def js_def)

text \<open>
  C8 does not hold for every call made while the compositor is running. \<open>resolve\<close>
  and \<open>reject\<close> are one pair of variables, and each call of \<open>waitForDone\<close> in the
  running state assigns them anew. After two calls the child's close, with exit code 0
  or with another code, calls the callbacks of the second promise only: the promise of
  the first call, made while running, is neither resolved nor rejected.
\<close>

theorem earlier_waitForDone_stays_pending:
  "runningStatus startCompositor = Running
   \<and> waitForDone startCompositor = (0, snd (waitForDone startCompositor))
   \<and> map_option trace (run [WaitForDone, Close (Some 0)] (snd (waitForDone startCompositor)))
       = Some [Resolve 1 None]
   \<and> map_option (\<lambda>s. outcome 0 (trace s))
       (run [WaitForDone, Close (Some 0)] (snd (waitForDone startCompositor))) = Some None
   \<and> map_option trace (run [WaitForDone, Close (Some 1)] (snd (waitForDone startCompositor)))
       = Some [Reject 1 (Error (js ''Compositor panicked: ''))]
   \<and> map_option (\<lambda>s. outcome 0 (trace s))
       (run [WaitForDone, Close (Some 1)] (snd (waitForDone startCompositor))) = Some None"
  by (simp add: waitForDone_def startCompositor_def Let_def close_trace outcome_def calls_Cons
      toString_utf8_def js_def)

text \<open>
  C8, amended. Let \<open>waitForDone\<close> be called in a state the compositor can reach, and
  return the promise \<open>p\<close>. If the status is \<open>quit-without-error\<close>, \<open>p\<close> is rejected
  with \<open>Compositor already quit\<close>; if it is \<open>quit-with-error\<close>, \<open>p\<close> is rejected with
  \<open>Compositor already quit: <stderr>\<close>, the stored text. If it is \<open>running\<close>, \<open>p\<close>
  is pending, and, provided that \<open>waitForDone\<close> is not called again before the child
  closes, after any other events the child's close with exit code 0 resolves \<open>p\<close> and its
  close with any other code rejects \<open>p\<close> with \<open>Compositor panicked: <stderr>\<close>.
\<close>

theorem waitForDone_outcome:
  assumes "run es startCompositor = Some st" and "waitForDone st = (p, st')"
  shows "(runningStatus st = QuitWithoutError \<longrightarrow>
            outcome p (trace st') = Some (Reject p (Error (js ''Compositor already quit''))))
       \<and> (\<forall>stderr. runningStatus st = QuitWithError stderr \<longrightarrow>
            outcome p (trace st') =
              Some (Reject p (Error (js ''Compositor already quit: '' @ stderr))))
       \<and> (runningStatus st = Running \<longrightarrow>
            outcome p (trace st') = None \<and>
            (\<forall>es' s. run es' st' = Some s \<and> WaitForDone \<notin> set es' \<and> runningStatus s = Running \<longrightarrow>
               outcome p (trace (close (Some 0) s)) = Some (Resolve p None) \<and>
               (\<forall>code. code \<noteq> Some 0 \<longrightarrow>
                  outcome p (trace (close code s)) =
                    Some (Reject p (Error (js ''Compositor panicked: '' @
                                           toString_utf8 (concat (stderrChunks s))))))))"
proof -
  from fresh_run [OF assms(1) fresh_start] have f: "fresh st" .
  from waitForDone_promise [OF assms(2)] have p: "p = promises st" .
  from fresh_calls [OF f, of p] p have c: "calls p (trace st) = []" by simp
  have a: "runningStatus st = QuitWithoutError \<longrightarrow>
            outcome p (trace st') = Some (Reject p (Error (js ''Compositor already quit'')))"
    using assms(2) c by (auto simp: waitForDone_def Let_def emit_def outcome_def calls_Cons)
  have b: "\<forall>stderr. runningStatus st = QuitWithError stderr \<longrightarrow>
            outcome p (trace st') =
              Some (Reject p (Error (js ''Compositor already quit: '' @ stderr)))"
    using assms(2) c by (auto simp: waitForDone_def Let_def emit_def outcome_def calls_Cons)
  have r: "runningStatus st = Running \<longrightarrow>
            outcome p (trace st') = None \<and>
            (\<forall>es' s. run es' st' = Some s \<and> WaitForDone \<notin> set es' \<and> runningStatus s = Running \<longrightarrow>
               outcome p (trace (close (Some 0) s)) = Some (Resolve p None) \<and>
               (\<forall>code. code \<noteq> Some 0 \<longrightarrow>
                  outcome p (trace (close code s)) =
                    Some (Reject p (Error (js ''Compositor panicked: '' @
                                           toString_utf8 (concat (stderrChunks s)))))))"
  proof
    assume run: "runningStatus st = Running"
    from waitForDone_running [OF f run] assms(2) p
    have st': "st' = st\<lparr>promises := Suc p, resolve := Some p, reject := Some p\<rparr>"
      and u: "uncalled p st'" by auto
    have o: "outcome p (trace st') = None" using c by (simp add: st' outcome_def)
    have "\<And>es' s code. run es' st' = Some s \<Longrightarrow> WaitForDone \<notin> set es' \<Longrightarrow> runningStatus s = Running \<Longrightarrow>
            outcome p (trace (close (Some 0) s)) = Some (Resolve p None) \<and>
            (code \<noteq> Some 0 \<longrightarrow> outcome p (trace (close code s)) =
                    Some (Reject p (Error (js ''Compositor panicked: '' @
                                           toString_utf8 (concat (stderrChunks s))))))"
    proof -
      fix es' s code
      assume r: "run es' st' = Some s" and n: "WaitForDone \<notin> set es'" and rs: "runningStatus s = Running"
      from running_run [OF r rs u] n have us: "uncalled p s" and "resolve s = Some p" "reject s = Some p"
        by (simp_all add: st')
      with installed_settles [of p s code]
      show "outcome p (trace (close (Some 0) s)) = Some (Resolve p None) \<and>
            (code \<noteq> Some 0 \<longrightarrow> outcome p (trace (close code s)) =
                    Some (Reject p (Error (js ''Compositor panicked: '' @
                                           toString_utf8 (concat (stderrChunks s))))))"
        by simp
    qed
    with o show "outcome p (trace st') = None \<and>
            (\<forall>es' s. run es' st' = Some s \<and> WaitForDone \<notin> set es' \<and> runningStatus s = Running \<longrightarrow>
               outcome p (trace (close (Some 0) s)) = Some (Resolve p None) \<and>
               (\<forall>code. code \<noteq> Some 0 \<longrightarrow>
                  outcome p (trace (close code s)) =
                    Some (Reject p (Error (js ''Compositor panicked: '' @
                                           toString_utf8 (concat (stderrChunks s)))))))"
      by blast
  qed
  from a b r show ?thesis by blast
qed

theorem waitForDone_outcome_witness:
  "waitForDone startCompositor = (0, snd (waitForDone startCompositor))
   \<and> run [StderrData ''boom''] (snd (waitForDone startCompositor))
        = Some (stderr_data ''boom'' (snd (waitForDone startCompositor)))
   \<and> outcome 0 (trace (snd (waitForDone startCompositor))) = None
   \<and> outcome 0 (trace (close (Some 0) (stderr_data ''boom'' (snd (waitForDone startCompositor)))))
        = Some (Resolve 0 None)
   \<and> outcome 0 (trace (close (Some 1) (stderr_data ''boom'' (snd (waitForDone startCompositor)))))
        = Some (Reject 0 (Error (js ''Compositor panicked: boom'')))
   \<and> outcome 0 (trace (snd (waitForDone (close (Some 0) startCompositor))))
        = Some (Reject 0 (Error (js ''Compositor already quit'')))
   \<and> outcome 0 (trace (snd (waitForDone (close (Some 1) (stderr_data ''boom'' startCompositor)))))
        = Some (Reject 0 (Error (js ''Compositor already quit: boom'')))"
proof -
  let ?st' = "snd (waitForDone startCompositor)"
  let ?s = "stderr_data ''boom'' ?st'"
  have h1: "run [] startCompositor = Some startCompositor" by simp
  have h2: "waitForDone startCompositor = (0, ?st')"
    by (simp add: waitForDone_def startCompositor_def Let_def)
  have r: "runningStatus startCompositor = Running" by (simp add: startCompositor_def)
  have e: "run [StderrData ''boom''] ?st' = Some ?s" by simp
  have rs: "runningStatus ?s = Running"
    by (simp add: stderr_data_def waitForDone_def startCompositor_def Let_def)
  have err: "toString_utf8 (concat (stderrChunks ?s)) = js ''boom''"
    by (simp add: stderr_data_def waitForDone_def startCompositor_def Let_def utf8_boom)
  from waitForDone_outcome [OF h1 h2] r
  have a: "outcome 0 (trace ?st') = None"
    and b: "\<forall>es' s. run es' ?st' = Some s \<and> WaitForDone \<notin> set es' \<and> runningStatus s = Running \<longrightarrow>
               outcome 0 (trace (close (Some 0) s)) = Some (Resolve 0 None) \<and>
               (\<forall>code. code \<noteq> Some 0 \<longrightarrow>
                  outcome 0 (trace (close code s)) =
                    Some (Reject 0 (Error (js ''Compositor panicked: '' @
                                           toString_utf8 (concat (stderrChunks s))))))"
    by blast+
  from b [rule_format, of "[StderrData ''boom'']" ?s] e rs
  have c: "outcome 0 (trace (close (Some 0) ?s)) = Some (Resolve 0 None)"
    and d: "\<forall>code. code \<noteq> Some 0 \<longrightarrow>
                  outcome 0 (trace (close code ?s)) =
                    Some (Reject 0 (Error (js ''Compositor panicked: '' @
                                           toString_utf8 (concat (stderrChunks ?s)))))"
    by simp_all
  from d [rule_format, of "Some 1"] err
  have d': "outcome 0 (trace (close (Some 1) ?s)) = Some (Reject 0 (Error (js ''Compositor panicked: boom'')))"
    by (simp add: js_def)
  let ?q = "close (Some 0) startCompositor"
  have q1: "run [Close (Some 0)] startCompositor = Some ?q" by simp
  have q2: "waitForDone ?q = (0, snd (waitForDone ?q))"
    by (simp add: waitForDone_def close_fields startCompositor_def Let_def)
  have q3: "runningStatus ?q = QuitWithoutError" by (simp add: close_fields)
  from waitForDone_outcome [OF q1 q2] q3
  have f: "outcome 0 (trace (snd (waitForDone ?q))) = Some (Reject 0 (Error (js ''Compositor already quit'')))"
    by blast
  let ?c = "close (Some 1) (stderr_data ''boom'' startCompositor)"
  have c1: "run [StderrData ''boom'', Close (Some 1)] startCompositor = Some ?c" by simp
  have c2: "waitForDone ?c = (0, snd (waitForDone ?c))"
    by (simp add: waitForDone_def close_fields stderr_data_def startCompositor_def Let_def
        split: RunningStatus.splits)
  have c3: "runningStatus ?c = QuitWithError (js ''boom'')"
    by (simp add: close_fields stderr_data_def startCompositor_def utf8_boom)
  from waitForDone_outcome [OF c1 c2] c3
  have g: "outcome 0 (trace (snd (waitForDone ?c))) = Some (Reject 0 (Error (js ''Compositor already quit: '' @ js ''boom'')))"
    by blast
  from h2 e a c d' f g show ?thesis by (simp add: js_def)
qed

subsection \<open>A second call of \<open>waitForDone\<close>\<close>

definition forgotten :: "nat \<Rightarrow> state \<Rightarrow> bool" where
  "forgotten p st \<longleftrightarrow> uncalled p st \<and> resolve st \<noteq> Some p \<and> reject st \<noteq> Some p"

lemma forgotten_step:
  assumes "step e st = Some st'" and "forgotten p st"
  shows "forgotten p st'"
proof (cases e)
  case (ExecuteCommand n c q)
  with assms show ?thesis
    by (auto simp: forgotten_def uncalled_def executeCommand_def emit_def Let_def calls_Cons
        split: RunningStatus.splits dest: waiting_update)
next
  case FinishCommands
  with assms show ?thesis
    by (auto simp: forgotten_def uncalled_def finishCommands_def emit_def calls_Cons
        split: RunningStatus.splits)
next
  case WaitForDone
  with assms show ?thesis
    by (auto simp: forgotten_def uncalled_def waitForDone_def emit_def Let_def calls_Cons split: RunningStatus.splits)
next
  case (StdoutData d)
  with assms have "stdout_data d st = Some st'" by simp
  from this assms(2) show ?thesis
    by (rule stdout_data_invariant)
      (simp_all add: forgotten_def uncalled_onMessage onMessage_fields, simp_all add: uncalled_def)
next
  case (StderrData d)
  with assms show ?thesis by (auto simp: forgotten_def uncalled_def stderr_data_def)
next
  case (Close code)
  with assms show ?thesis
    by (auto simp: forgotten_def uncalled_def close_fields close_trace calls_rejects count_list_0 calls_Cons
        split: option.splits)
qed

lemma forgotten_run: "run es st = Some st' \<Longrightarrow> forgotten p st \<Longrightarrow> forgotten p st'"
  by (induction es arbitrary: st) (auto split: option.splits dest: forgotten_step)

text \<open>
  C10. Two calls of \<open>waitForDone\<close>, each while the compositor is running, return
  different promises \<open>p1\<close> and \<open>p2\<close>, and the second call leaves \<open>p2\<close> in both
  \<open>resolve\<close> and \<open>reject\<close>. Whatever happens afterwards, the child's close included,
  no callback of \<open>p1\<close> is ever called; while no third call is made, the child's close
  settles \<open>p2\<close>: resolved on exit code 0, rejected with \<open>Compositor panicked: <stderr>\<close>
  otherwise.
\<close>

theorem second_waitForDone_overwrites:
  assumes "run es0 startCompositor = Some s0" and "waitForDone s0 = (p1, s1)"
    and "run es1 s1 = Some s2" and "runningStatus s2 = Running" and "waitForDone s2 = (p2, s3)"
    and "run es2 s3 = Some s4"
  shows "p1 \<noteq> p2 \<and> resolve s3 = Some p2 \<and> reject s3 = Some p2
       \<and> calls p1 (trace s4) = [] \<and> calls p1 (trace (close code s4)) = []
       \<and> (WaitForDone \<notin> set es2 \<and> runningStatus s4 = Running \<longrightarrow>
            outcome p2 (trace (close (Some 0) s4)) = Some (Resolve p2 None) \<and>
            (code \<noteq> Some 0 \<longrightarrow>
               outcome p2 (trace (close code s4)) =
                 Some (Reject p2 (Error (js ''Compositor panicked: '' @
                                         toString_utf8 (concat (stderrChunks s4)))))))"
proof -
  from fresh_run [OF assms(1) fresh_start] have f0: "fresh s0" .
  have r1: "runningStatus s1 = Running" using status_run [OF assms(3)] assms(4) by auto
  have r0: "runningStatus s0 = Running"
    using r1 assms(2) by (auto simp: waitForDone_def Let_def emit_def split: RunningStatus.splits)
  from waitForDone_running [OF f0 r0] assms(2) have p1: "p1 = promises s0" and u1: "uncalled p1 s1"
    by auto
  from running_run [OF assms(3,4) u1] have u2: "uncalled p1 s2" by simp
  have "fresh s1" using fresh_waitForDone [OF f0] assms(2) by simp
  from fresh_run [OF assms(3) this] have f2: "fresh s2" .
  from waitForDone_running [OF f2 assms(4)] assms(5)
  have p2: "p2 = promises s2"
    and s3: "s3 = s2\<lparr>promises := Suc p2, resolve := Some p2, reject := Some p2\<rparr>"
    and u3: "uncalled p2 s3" by auto
  from u2 p2 have ne: "p1 \<noteq> p2" by (auto simp: uncalled_def)
  from u2 ne p2 have "forgotten p1 s3" by (simp add: forgotten_def uncalled_def s3)
  from forgotten_run [OF assms(6) this] have f4: "forgotten p1 s4" .
  have "step (Close code) s4 = Some (close code s4)" by simp
  from forgotten_step [OF this f4] have f5: "forgotten p1 (close code s4)" .
  have last: "WaitForDone \<notin> set es2 \<and> runningStatus s4 = Running \<longrightarrow>
            outcome p2 (trace (close (Some 0) s4)) = Some (Resolve p2 None) \<and>
            (code \<noteq> Some 0 \<longrightarrow>
               outcome p2 (trace (close code s4)) =
                 Some (Reject p2 (Error (js ''Compositor panicked: '' @
                                         toString_utf8 (concat (stderrChunks s4))))))"
  proof
    assume a: "WaitForDone \<notin> set es2 \<and> runningStatus s4 = Running"
    from running_run [OF assms(6) _ u3] a
    have "uncalled p2 s4" "resolve s4 = Some p2" "reject s4 = Some p2" by (simp_all add: s3)
    with installed_settles [of p2 s4 code]
    show "outcome p2 (trace (close (Some 0) s4)) = Some (Resolve p2 None) \<and>
            (code \<noteq> Some 0 \<longrightarrow>
               outcome p2 (trace (close code s4)) =
                 Some (Reject p2 (Error (js ''Compositor panicked: '' @
                                         toString_utf8 (concat (stderrChunks s4))))))"
      by simp
  qed
  from ne s3 f4 f5 last show ?thesis by (simp add: forgotten_def uncalled_def)
qed

theorem second_waitForDone_overwrites_witness:
  "waitForDone startCompositor = (0, snd (waitForDone startCompositor))
   \<and> waitForDone (snd (waitForDone startCompositor))
        = (1, snd (waitForDone (snd (waitForDone startCompositor))))
   \<and> calls 0 (trace (close (Some 0) (snd (waitForDone (snd (waitForDone startCompositor)))))) = []
   \<and> outcome 1 (trace (close (Some 0) (snd (waitForDone (snd (waitForDone startCompositor))))))
        = Some (Resolve 1 None)"
proof -
  let ?s1 = "snd (waitForDone startCompositor)"
  let ?s3 = "snd (waitForDone ?s1)"
  have h1: "run [] startCompositor = Some startCompositor" by simp
  have h2: "waitForDone startCompositor = (0, ?s1)"
    by (simp add: waitForDone_def startCompositor_def Let_def)
  have h3: "run [] ?s1 = Some ?s1" by simp
  have h4: "runningStatus ?s1 = Running"
    by (simp add: waitForDone_def startCompositor_def Let_def)
  have h5: "waitForDone ?s1 = (1, ?s3)"
    by (simp add: waitForDone_def startCompositor_def Let_def)
  have h6: "run [] ?s3 = Some ?s3" by simp
  have h7: "runningStatus ?s3 = Running"
    by (simp add: waitForDone_def startCompositor_def Let_def)
  from second_waitForDone_overwrites [OF h1 h2 h3 h4 h5 h6, of "Some 0"] h7 h2 h5
  show ?thesis by simp
qed

section \<open>The frame parser\<close>

subsection \<open>The wire format\<close>

text \<open>
  Modelled from the spec: the encoder of frames is the child's and not among the
  sources. A frame as the child writes it, following the comment in \<open>processInput\<close>
  and the wire format of the specification:
  \<open>remotion_buffer:<nonce>:<length>:<status>:<payload>\<close>, the length in decimal, the
  status \<open>0\<close> for success and \<open>1\<close> for error. \<open>header\<close> is the frame up to and
  including the third colon.
\<close>

definition ascii :: "jsstring \<Rightarrow> bytes" where
  "ascii s = map char_of s"

definition header :: "statusType \<Rightarrow> bytes \<Rightarrow> nat \<Rightarrow> bytes" where
  "header status nonce n =
     separator @ nonce @ '':'' @ ascii (decimal n) @ '':'' @
     (if status = error then ''1'' else ''0'') @ '':''"

definition frame_bytes :: "statusType \<Rightarrow> bytes \<Rightarrow> bytes \<Rightarrow> bytes" where
  "frame_bytes status nonce payload = header status nonce (length payload) @ payload"

subsection \<open>Reading a header\<close>

lemma indexOf_prefix: "indexOf (v @ xs) v = Some 0"
proof (cases "v @ xs")
  case Nil
  then show ?thesis by simp
next
  case (Cons a list)
  have "take (length v) (v @ xs) = v" by simp
  with Cons show ?thesis by simp
qed

lemma byte_at_append: "byte_at (pre @ c # rest) (length pre) = Some c"
  by (simp add: byte_at_def)

lemma scan_field:
  "CHR '':'' \<notin> set f \<Longrightarrow>
   scan (pre @ f @ CHR '':'' # rest) (length pre) acc =
     Some (length pre + length f, acc @ map of_char f)"
proof (induction f arbitrary: pre acc)
  case Nil
  show ?case by (subst scan.simps) (simp add: byte_at_append)
next
  case (Cons c f)
  have b: "byte_at (pre @ (c # f) @ CHR '':'' # rest) (length pre) = Some c"
    using byte_at_append [of pre c "f @ CHR '':'' # rest"] by simp
  from Cons.prems have c: "c \<noteq> CHR '':''" and f: "CHR '':'' \<notin> set f" by auto
  from Cons.IH [OF f, of "pre @ [c]" "acc @ [of_char c]"]
  have "scan (pre @ (c # f) @ CHR '':'' # rest) (length pre + 1) (acc @ [of_char c]) =
          Some (length pre + length (c # f), acc @ map of_char (c # f))"
    by simp
  with b c show ?case by (subst scan.simps) simp
qed

lemma digit_not_ws: "is_digit c \<Longrightarrow> \<not> is_ws c"
  by (auto simp: is_digit_def is_ws_def)

lemma trim_digits:
  assumes "ds \<noteq> []" and "list_all is_digit ds"
  shows "trim ds = ds"
proof -
  from assms obtain c cs where ds: "ds = c # cs" and c: "is_digit c" by (cases ds) auto
  then have a: "dropWhile is_ws ds = ds" by (simp add: digit_not_ws)
  from assms have "rev ds \<noteq> []" and "list_all is_digit (rev ds)" by (simp_all add: list_all_iff)
  then obtain d dr where r: "rev ds = d # dr" and d: "is_digit d" by (cases "rev ds") auto
  then have "dropWhile is_ws (rev ds) = rev ds" by (simp add: digit_not_ws)
  with a show ?thesis by (simp add: trim_def)
qed

lemma Number_digits:
  assumes "ds \<noteq> []" and "list_all is_digit ds"
  shows "Number ds = num (digits_val 10 ds)"
proof -
  from assms obtain c cs where ds: "ds = c # cs" and c: "is_digit c" and cs: "list_all is_digit cs"
    by (cases ds) auto
  have nd: "non_decimal ds = None"
  proof (cases cs)
    case Nil
    with ds show ?thesis by (simp add: non_decimal_def)
  next
    case (Cons c1 r)
    with cs have "is_digit c1" by simp
    with ds Cons show ?thesis by (auto simp: non_decimal_def is_digit_def)
  qed
  have inf: "ds \<noteq> js ''Infinity''" using ds c by (auto simp: js_def is_digit_def)
  have tw: "takeWhile is_digit ds = ds" "dropWhile is_digit ds = []"
    using assms(2) by (simp_all add: list_all_iff)
  have ud: "unsigned_decimal ds = num (digits_val 10 ds)"
    using inf assms(1) by (simp add: unsigned_decimal_def tw exponent_part_def scale10_def num_def)
  have sd: "str_decimal ds = unsigned_decimal ds"
    using ds c by (auto simp: str_decimal_def is_digit_def)
  show ?thesis
    using assms(1) by (simp add: Number_def trim_digits [OF assms] nd sd ud)
qed

lemma decimal_nonempty: "decimal n \<noteq> []"
  by (subst decimal.simps) simp

lemma decimal_digits: "list_all is_digit (decimal n)"
proof (induction n rule: decimal.induct)
  case (1 n)
  show ?case
  proof (cases "n < 10")
    case True
    then show ?thesis by (subst decimal.simps) (simp add: is_digit_def)
  next
    case False
    with 1 have "list_all is_digit (decimal (n div 10))" by simp
    moreover have "is_digit (48 + n mod 10)" by (simp add: is_digit_def)
    ultimately show ?thesis using False by (subst decimal.simps) simp
  qed
qed

lemma digits_val_snoc: "digits_val r (ds @ [c]) = r * digits_val r ds + (case digit_of c of None \<Rightarrow> 0 | Some d \<Rightarrow> d)"
  by (simp add: digits_val_def)

lemma digits_val_decimal: "digits_val 10 (decimal n) = n"
proof (induction n rule: decimal.induct)
  case (1 n)
  show ?case
  proof (cases "n < 10")
    case True
    then show ?thesis by (subst decimal.simps) (simp add: digits_val_def digit_of_def)
  next
    case False
    with 1 have "digits_val 10 (decimal (n div 10)) = n div 10" by simp
    then show ?thesis using False
      by (subst decimal.simps) (simp add: digits_val_snoc digit_of_def)
  qed
qed

lemma Number_decimal: "Number (decimal n) = num n"
  by (simp add: Number_digits decimal_nonempty decimal_digits digits_val_decimal)

lemma ascii_decimal: "map of_char (ascii (decimal n)) = decimal n"
proof -
  have "\<forall>c \<in> set (decimal n). c < 256"
    using decimal_digits [of n] by (auto simp: list_all_iff is_digit_def)
  then show ?thesis by (simp add: ascii_def map_idI)
qed

lemma colon_ascii_decimal: "CHR '':'' \<notin> set (ascii (decimal n))"
proof
  assume "CHR '':'' \<in> set (ascii (decimal n))"
  then have "(of_char CHR '':'' :: nat) \<in> set (map of_char (ascii (decimal n)))"
    by (simp only: set_map) (rule imageI)
  with ascii_decimal [of n] have "(58::nat) \<in> set (decimal n)" by simp
  with decimal_digits [of n] show False by (auto simp: list_all_iff is_digit_def)
qed

lemma adjustOffset_num: "adjustOffset (num a) len = min a len"
  by (simp add: num_def Let_def)

lemma num_add_num: "num_add (num a) (num b) = num (a + b)"
  by (simp add: num_def)

lemma subarray_num: "subarray buf (num a) (Some (num b)) = take (b - a) (drop a buf)"
  by (auto simp: subarray_def adjustOffset_num Let_def min_def)

lemma subarray_from: "subarray buf (num a) None = drop a buf"
  by (auto simp: subarray_def adjustOffset_num Let_def min_def)

lemma num_inject: "num a = num b \<longleftrightarrow> a = b"
  by (simp add: num_def)

lemma Number_0: "Number [48] = num 0"
  using Number_digits [of "[48]"] by (simp add: is_digit_def digits_val_def digit_of_def)

lemma Number_1: "Number [49] = num 1"
  using Number_digits [of "[49]"] by (simp add: is_digit_def digits_val_def digit_of_def)


lemma num_less_num: "num_less (num a) (num b) \<longleftrightarrow> a < b"
  by (simp add: num_def)

lemma num_sub_num: "b \<le> a \<Longrightarrow> num_sub (num a) (num b) = num (a - b)"
  by (simp add: num_def num_sub_def of_nat_diff)

lemma parse_header:
  assumes nonce: "CHR '':'' \<notin> set nonce"
    and buf: "outputBuffer st = header status nonce n @ tail"
  shows "processInput st =
           (if length tail < n then Some (st\<lparr>missingData := Some (num (n - length tail))\<rparr>)
            else processInput
                   ((onMessage status (map of_char nonce) (take n tail) st)
                    \<lparr>missingData := None, outputBuffer := drop n tail\<rparr>))"
proof -
  let ?b = "outputBuffer st"
  let ?len = "ascii (decimal n)"
  let ?stat = "if status = error then ''1'' else ''0''"
  let ?p1 = "separator"
  let ?p2 = "separator @ nonce @ '':''"
  let ?p3 = "separator @ nonce @ '':'' @ ?len @ '':''"
  let ?idx = "length ?p3 + 1"
  have idx: "indexOf ?b separator = Some 0"
    using indexOf_prefix [of separator "nonce @ '':'' @ ?len @ '':'' @ ?stat @ '':'' @ tail"]
    by (simp add: buf header_def)
  have b1: "?b = ?p1 @ nonce @ CHR '':'' # (?len @ '':'' @ ?stat @ '':'' @ tail)"
    by (simp add: buf header_def)
  have b2: "?b = ?p2 @ ?len @ CHR '':'' # (?stat @ '':'' @ tail)"
    by (simp add: buf header_def)
  have b3: "?b = ?p3 @ ?stat @ CHR '':'' # tail"
    by (simp add: buf header_def)
  have s1: "scan ?b (length ?p1) [] = Some (length ?p1 + length nonce, map of_char nonce)"
    by (subst b1) (simp only: scan_field [OF nonce] append_Nil)
  have s2: "scan ?b (length ?p2) [] = Some (length ?p2 + length ?len, decimal n)"
    by (subst b2) (simp only: scan_field [OF colon_ascii_decimal] append_Nil ascii_decimal)
  have st: "CHR '':'' \<notin> set ?stat" by simp
  have s3: "scan ?b (length ?p3) [] = Some (length ?p3 + length ?stat, map of_char ?stat)"
    by (subst b3) (simp only: scan_field [OF st] append_Nil)
  have l1: "0 + length separator = length ?p1" by simp
  have l2: "length ?p1 + length nonce + 1 = length ?p2" by simp
  have l3: "length ?p2 + length ?len + 1 = length ?p3" by simp
  have l4: "length ?p3 + length ?stat = ?idx" by simp
  have lb: "length ?b = ?idx + 1 + length tail" by (subst b3) simp
  have dl: "Fin (of_int (int (length ?b) - int ?idx - 1)) = num (length tail)"
    by (simp only: lb) (simp add: num_def)
  have lh: "?idx + 1 = length (header status nonce n)" by (simp add: header_def)
  have dh: "drop (length (header status nonce n)) ?b = tail" by (simp add: buf)
  have data: "subarray ?b (num (?idx + 1)) (Some (num_add (num (?idx + 1)) (num n))) = take n tail"
    by (simp only: num_add_num subarray_num lh dh diff_add_inverse)
  have "drop (?idx + n + 1) ?b = drop n (drop (?idx + 1) ?b)"
    by (simp only: drop_drop) (simp only: ac_simps)
  then have rest: "subarray ?b (num_add (num_add (num ?idx) (num n)) (num 1)) None = drop n tail"
    by (simp only: num_add_num subarray_from lh dh)
  have stt: "(if Number (map of_char ?stat) = num 1 then error else success) = status"
    by (cases status) (simp_all add: Number_0 Number_1 num_inject del: One_nat_def)
  show ?thesis
    apply (subst processInput.simps)
    apply (simp only: idx option.case l1 s1 bind.bind_lunit prod.case l2 s2 l3 s3 l4
            Number_decimal dl num_less_num data rest stt)
    apply (simp add: num_sub_num)
    done
qed


lemma separator_nonempty: "separator \<noteq> []"
  by (simp add: separator_def)

lemma processInput_no_marker:
  "indexOf (outputBuffer st) separator = None \<Longrightarrow> processInput st = Some st"
  by (subst processInput.simps) simp

lemma processInput_empty: "outputBuffer st = [] \<Longrightarrow> processInput st = Some st"
  by (rule processInput_no_marker) (simp add: separator_nonempty)

lemma indexOf_frame: "indexOf (frame_bytes status nonce payload @ rest) separator = Some 0"
  using indexOf_prefix [of separator] by (simp add: frame_bytes_def header_def)

lemma onMessage_buffers:
  "onMessage status nonce data (st\<lparr>outputBuffer := b\<rparr>) =
     (onMessage status nonce data st)\<lparr>outputBuffer := b\<rparr>"
  "onMessage status nonce data (st\<lparr>unprocessedBuffers := u\<rparr>) =
     (onMessage status nonce data st)\<lparr>unprocessedBuffers := u\<rparr>"
  "onMessage status nonce data (st\<lparr>missingData := m\<rparr>) =
     (onMessage status nonce data st)\<lparr>missingData := m\<rparr>"
  by (simp_all add: onMessage_def emit_def Let_def split: option.split)

lemma whole_frame:
  assumes "CHR '':'' \<notin> set nonce"
    and "outputBuffer st = []" and "concat (unprocessedBuffers st) = []"
  shows "stdout_data (frame_bytes status nonce payload) st =
           Some ((onMessage status (map of_char nonce) payload st)
                 \<lparr>missingData := None, outputBuffer := [], unprocessedBuffers := []\<rparr>)"
proof -
  let ?c = "frame_bytes status nonce payload"
  let ?s1 = "st\<lparr>unprocessedBuffers := unprocessedBuffers st @ [?c]\<rparr>"
  let ?s2 = "?s1\<lparr>outputBuffer := concat (outputBuffer ?s1 # unprocessedBuffers ?s1),
                 unprocessedBuffers := []\<rparr>"
  let ?s3 = "(onMessage status (map of_char nonce) (take (length payload) payload) ?s2)
               \<lparr>missingData := None, outputBuffer := drop (length payload) payload\<rparr>"
  have i: "indexOf ?c separator = Some 0" using indexOf_frame [of status nonce payload "[]"] by simp
  have b: "outputBuffer ?s2 = header status nonce (length payload) @ payload"
    using assms(2,3) by (simp add: frame_bytes_def)
  have "processInput ?s2 = processInput ?s3"
    using parse_header [OF assms(1) b] by simp
  also have "\<dots> = Some ?s3" by (rule processInput_empty) simp
  finally have "processInput ?s2 = Some ?s3" .
  then have "stdout_data ?c st = Some ?s3"
    by (simp add: stdout_data_def i concat_and_process_def)
  then show ?thesis by (simp add: onMessage_buffers)
qed

subsection \<open>A waiter and a frame for it\<close>

definition one_waiter :: state where
  "one_waiter = startCompositor\<lparr>waiters := [(js ''abc'', 0)], promises := 1\<rparr>"

lemma char_of_51: "char_of (51::nat) = CHR ''3''"
  by code_simp

lemma decimal_digit: "n < 10 \<Longrightarrow> decimal n = [48 + n]"
  by (subst decimal.simps) simp

lemma frame_foo: "frame_bytes success ''abc'' ''foo'' = ''remotion_buffer:abc:3:0:foo''"
  by (simp add: frame_bytes_def header_def separator_def ascii_def decimal_digit char_of_51)

subsection \<open>At most one resolution for a waiter\<close>

definition once :: "nat \<Rightarrow> state \<Rightarrow> bool" where
  "once p st \<longleftrightarrow>
     p < promises st \<and> resolve st \<noteq> Some p \<and> reject st \<noteq> Some p \<and>
     length (calls p (trace st)) + count_list (map snd (waiters st)) p \<le> 1"

lemma count_delete_le:
  "count_list (map snd (AList.delete k ws)) p \<le> count_list (map snd ws) p"
  by (induction ws) auto

lemma count_delete_found:
  "map_of ws k = Some p \<Longrightarrow>
   count_list (map snd (AList.delete k ws)) p < count_list (map snd ws) p"
proof (induction ws)
  case Nil
  then show ?case by simp
next
  case (Cons a ws)
  obtain k' w' where a: "a = (k', w')" by (cases a)
  show ?case
  proof (cases "k' = k")
    case True
    with Cons.prems a have "w' = p" by simp
    with True a count_delete_le [of k ws p] show ?thesis by simp
  next
    case False
    with Cons a show ?thesis by simp
  qed
qed

lemma count_update_le:
  "p \<noteq> v \<Longrightarrow> count_list (map snd (AList.update k v ws)) p \<le> count_list (map snd ws) p"
  by (induction ws) auto

lemma count_update_new:
  "\<not> waiting v ws \<Longrightarrow> count_list (map snd (AList.update k v ws)) v = 1"
  unfolding waiting_def by (induction ws) (auto simp: count_list_0 [unfolded waiting_def])

lemma once_onMessage:
  assumes "once p s"
  shows "once p (onMessage status nonce data s)"
proof (cases "map_of (waiters s) nonce")
  case None
  with assms count_delete_le [of nonce "waiters s" p] show ?thesis
    unfolding once_def onMessage_fields onMessage_waiters onMessage_trace
    by (auto simp: calls_Cons)
next
  case (Some w)
  show ?thesis
  proof (cases "w = p")
    case True
    from assms have l: "length (calls p (trace s)) + count_list (map snd (waiters s)) p \<le> 1"
      by (simp add: once_def)
    from True Some count_delete_found [of "waiters s" nonce p]
    have lt: "count_list (map snd (AList.delete nonce (waiters s))) p
                < count_list (map snd (waiters s)) p" by simp
    from l lt have "length (calls p (trace s)) = 0"
      and "count_list (map snd (AList.delete nonce (waiters s))) p = 0" by linarith+
    then have "calls p (trace s) = []"
      and "count_list (map snd (AList.delete nonce (waiters s))) p = 0" by simp_all
    with True Some assms show ?thesis
      unfolding once_def onMessage_fields onMessage_waiters onMessage_trace
      by (auto simp: calls_Cons)
  next
    case False
    with Some assms count_delete_le [of nonce "waiters s" p] show ?thesis
      unfolding once_def onMessage_fields onMessage_waiters onMessage_trace
      by (auto simp: calls_Cons)
  qed
qed

lemma length_calls_rejects:
  "length (calls p (map ((\<lambda>w. Reject w e) \<circ> snd) ws)) = count_list (map snd ws) p"
  by (simp add: calls_rejects)

lemma once_step:
  assumes "step e st = Some st'" and "once p st"
  shows "once p st'"
proof (cases e)
  case (ExecuteCommand n c q)
  show ?thesis
  proof (cases "runningStatus st")
    case Running
    with ExecuteCommand assms(1)
    have st': "st' = st\<lparr>promises := Suc (promises st),
                        trace := trace st @ [StdinWrite (Request n c q)],
                        waiters := AList.update n (promises st) (waiters st)\<rparr>"
      by (simp add: executeCommand_def emit_def Let_def)
    from assms(2) have "p \<noteq> promises st" by (simp add: once_def)
    from count_update_le [OF this, of n "waiters st"] assms(2) show ?thesis
      unfolding st' once_def by (simp add: calls_Cons)
  next
    case (QuitWithError x)
    with ExecuteCommand assms show ?thesis by (simp add: executeCommand_def)
  next
    case QuitWithoutError
    with ExecuteCommand assms show ?thesis by (simp add: executeCommand_def)
  qed
next
  case FinishCommands
  with assms show ?thesis
    by (auto simp: once_def finishCommands_def emit_def calls_Cons split: RunningStatus.splits)
next
  case WaitForDone
  with assms show ?thesis
    by (auto simp: once_def waitForDone_def emit_def Let_def calls_Cons split: RunningStatus.splits)
next
  case (StdoutData d)
  with assms have "stdout_data d st = Some st'" by simp
  from this assms(2) show ?thesis
    by (rule stdout_data_invariant) (simp_all add: once_onMessage, simp_all add: once_def)
next
  case (StderrData d)
  with assms show ?thesis by (auto simp: once_def stderr_data_def)
next
  case (Close code)
  with assms show ?thesis
    by (auto simp: once_def close_fields close_trace calls_rejects calls_Cons split: option.splits)
qed

lemma once_run: "run es st = Some st' \<Longrightarrow> once p st \<Longrightarrow> once p st'"
  by (induction es arbitrary: st) (auto split: option.splits dest: once_step)

text \<open>
  C5. Let \<open>executeCommand\<close>, called in a state the compositor can reach, put a waiter
  into the registry and return its promise \<open>p\<close>. Whatever events follow (frames, among
  them several for the same nonce, further commands, the child's close), the callbacks
  of \<open>p\<close> are called at most once altogether.
\<close>

theorem at_most_one_resolution:
  assumes "run es0 startCompositor = Some s0"
    and "executeCommand nonce command params s0 = Inr (p, s1)"
    and "run es s1 = Some st"
  shows "length (calls p (trace st)) \<le> 1"
proof -
  from fresh_run [OF assms(1) fresh_start] have f: "fresh s0" .
  from assms(2) have p: "p = promises s0"
    by (auto simp: executeCommand_def Let_def split: RunningStatus.splits)
  from assms(2) have s1: "s1 = s0\<lparr>promises := Suc p,
                        trace := trace s0 @ [StdinWrite (Request nonce command params)],
                        waiters := AList.update nonce p (waiters s0)\<rparr>"
    by (auto simp: executeCommand_def emit_def Let_def split: RunningStatus.splits)
  from fresh_waiting [OF f, of p] p have nw: "\<not> waiting p (waiters s0)" by auto
  from fresh_calls [OF f, of p] p have c: "calls p (trace s0) = []" by simp
  from f p have st: "resolve s0 \<noteq> Some p" "reject s0 \<noteq> Some p" by (auto simp: fresh_def)
  have "once p s1"
    unfolding once_def s1 using c st count_update_new [OF nw, of nonce]
    by (simp add: calls_Cons)
  from once_run [OF assms(3) this] show ?thesis by (simp add: once_def)
qed

theorem at_most_one_resolution_witness:
  "\<exists>s1 st.
     executeCommand (js ''abc'') (js ''X'') (js ''{}'') startCompositor = Inr (0, s1)
     \<and> run [StdoutData ''remotion_buffer:abc:3:0:foo'',
             StdoutData ''remotion_buffer:abc:3:0:foo'', Close (Some 1)] s1 = Some st
     \<and> length (calls 0 (trace st)) \<le> 1
     \<and> calls 0 (trace st) = [Resolve 0 (Some ''foo'')]"
proof -
  let ?frame = "''remotion_buffer:abc:3:0:foo''"
  let ?s1 = "startCompositor\<lparr>promises := 1,
                trace := [StdinWrite (Request (js ''abc'') (js ''X'') (js ''{}''))],
                waiters := [(js ''abc'', 0)]\<rparr>"
  let ?x1 = "(onMessage success (map of_char ''abc'') ''foo'' ?s1)
               \<lparr>missingData := None, outputBuffer := [], unprocessedBuffers := []\<rparr>"
  let ?x2 = "(onMessage success (map of_char ''abc'') ''foo'' ?x1)
               \<lparr>missingData := None, outputBuffer := [], unprocessedBuffers := []\<rparr>"
  have e: "executeCommand (js ''abc'') (js ''X'') (js ''{}'') startCompositor = Inr (0, ?s1)"
    by (simp add: executeCommand_def startCompositor_def emit_def Let_def)
  have d1: "stdout_data ?frame ?s1 = Some ?x1"
    using whole_frame [of "''abc''" ?s1 success "''foo''"]
    by (simp add: frame_foo startCompositor_def)
  have d2: "stdout_data ?frame ?x1 = Some ?x2"
    using whole_frame [of "''abc''" ?x1 success "''foo''"]
    by (simp add: frame_foo)
  have r: "run [StdoutData ?frame, StdoutData ?frame, Close (Some 1)] ?s1 = Some (close (Some 1) ?x2)"
    by (simp only: run.simps step.simps d1 d2 option.case)
  have r0: "run [] startCompositor = Some startCompositor" by simp
  from at_most_one_resolution [OF r0 e r]
  have a: "length (calls 0 (trace (close (Some 1) ?x2))) \<le> 1" .
  have b: "calls 0 (trace (close (Some 1) ?x2)) = [Resolve 0 (Some ''foo'')]"
    by (simp add: close_trace onMessage_trace onMessage_waiters onMessage_fields calls_Cons js_def
        startCompositor_def)
  from e r a b show ?thesis by blast
qed

subsection \<open>Frames with the nonce 0\<close>

text \<open>
  The nonce \<open>0\<close> is the one the child uses for its log lines; the nonce of a command
  is what \<open>makeNonce\<close> returns, which in a run is the first argument of
  \<open>ExecuteCommand\<close>. A nonce that no command of a run has been given is not in the
  registry.
\<close>

lemma absent_step:
  assumes "step e st = Some st'" and "requested e \<noteq> Some n" and "map_of (waiters st) n = None"
  shows "map_of (waiters st') n = None"
proof (cases e)
  case (ExecuteCommand m c p)
  with assms show ?thesis
    by (auto simp: executeCommand_def emit_def Let_def update_conv' split: RunningStatus.splits)
next
  case FinishCommands
  with assms show ?thesis
    by (auto simp: finishCommands_def emit_def split: RunningStatus.splits)
next
  case WaitForDone
  with assms show ?thesis
    by (auto simp: waitForDone_def emit_def Let_def split: RunningStatus.splits)
next
  case (StdoutData d)
  with assms have "stdout_data d st = Some st'" by simp
  from this assms(3) show ?thesis
    by (rule stdout_data_invariant) (simp_all add: onMessage_waiters delete_conv')
next
  case (StderrData d)
  with assms show ?thesis by (auto simp: stderr_data_def)
next
  case (Close code)
  with assms show ?thesis by (auto simp: close_fields)
qed

lemma absent_run:
  "run es st = Some st' \<Longrightarrow> \<forall>e \<in> set es. requested e \<noteq> Some n \<Longrightarrow>
   map_of (waiters st) n = None \<Longrightarrow> map_of (waiters st') n = None"
proof (induction es arbitrary: st)
  case Nil
  then show ?case by simp
next
  case (Cons e es)
  from Cons.prems(1) obtain s1 where s1: "step e st = Some s1" and r: "run es s1 = Some st'"
    by (auto split: option.splits)
  from Cons.prems(2) have "requested e \<noteq> Some n" by simp
  from absent_step [OF s1 this Cons.prems(3)] have "map_of (waiters s1) n = None" .
  from Cons.IH [OF r _ this] Cons.prems(2) show ?case by simp
qed

definition abc_requested :: state where
  "abc_requested =
     startCompositor
       \<lparr>waiters := [(js ''abc'', 0)], promises := 1,
        trace := [StdinWrite (Request (js ''abc'') (js ''X'') (js ''{}''))]\<rparr>"

text \<open>
  C9. In every state that the compositor reaches by events among which no command has
  the nonce \<open>0\<close>, and for either status and any payload, \<open>onMessage\<close> with the nonce
  \<open>0\<close> makes one call of \<open>Log.verboseAdvanced\<close>, with the tag \<open>compositor\<close> and the
  payload decoded as UTF-8, and does nothing else: \<open>waiters.has\<close> finds no entry, no
  callback is called, and the registry and every other variable are as before.
\<close>

theorem log_frame:
  assumes "run es startCompositor = Some st"
    and "\<forall>e \<in> set es. requested e \<noteq> Some (js ''0'')"
  shows "onMessage status (js ''0'') data st =
           st\<lparr>trace := trace st @ [Message status (js ''0'') data,
                                   VerboseLog (js ''compositor'') (toString_utf8 data)]\<rparr>
       \<and> waiters (onMessage status (js ''0'') data st) = waiters st"
proof -
  have "map_of (waiters startCompositor) (js ''0'') = None" by (simp add: startCompositor_def)
  from absent_run [OF assms(1,2) this] have "map_of (waiters st) (js ''0'') = None" .
  then show ?thesis by (simp add: onMessage_def emit_def Let_def)
qed

theorem log_frame_witness:
  "run [ExecuteCommand (js ''abc'') (js ''X'') (js ''{}''), StderrData ''boom''] startCompositor
     = Some (abc_requested\<lparr>stderrChunks := [''boom'']\<rparr>)
   \<and> onMessage error (js ''0'') ''hello'' (abc_requested\<lparr>stderrChunks := [''boom'']\<rparr>) =
       abc_requested\<lparr>stderrChunks := [''boom''],
                     trace := [StdinWrite (Request (js ''abc'') (js ''X'') (js ''{}'')),
                               Message error (js ''0'') ''hello'',
                               VerboseLog (js ''compositor'') (js ''hello'')]\<rparr>
   \<and> waiters (abc_requested\<lparr>stderrChunks := [''boom'']\<rparr>) = [(js ''abc'', 0)]"
proof -
  let ?es = "[ExecuteCommand (js ''abc'') (js ''X'') (js ''{}''), StderrData ''boom'']"
  let ?st = "abc_requested\<lparr>stderrChunks := [''boom'']\<rparr>"
  have r: "run ?es startCompositor = Some ?st"
    by (simp add: executeCommand_def stderr_data_def emit_def Let_def abc_requested_def
        startCompositor_def)
  have n: "\<forall>e \<in> set ?es. requested e \<noteq> Some (js ''0'')" by (simp add: js_def)
  have t: "toString_utf8 ''hello'' = js ''hello''" by code_simp
  from log_frame [OF r n, of error "''hello''"] r t show ?thesis
    by (simp add: abc_requested_def startCompositor_def)
qed

subsection \<open>Error frames\<close>

text \<open>
  C7 does not hold for a payload that is JSON without the two fields: \<open>{}\<close> parses, the
  fields are \<open>undefined\<close>, and the waiter is rejected with
  \<open>Compositor error: undefined\nundefined\<close>, not with the raw payload.
\<close>

theorem error_frame_without_fields:
  "trace (onMessage error (js ''abc'') ''{}'' one_waiter) =
     [Message error (js ''abc'') ''{}'',
      Reject 0 (Error (js ''Compositor error: undefined'' @ 10 # js ''undefined''))]
   \<and> toString_utf8 ''{}'' \<noteq> js ''Compositor error: undefined'' @ 10 # js ''undefined''"
proof -
  have c: "compositor_error (toString_utf8 ''{}'') =
             Some (js ''Compositor error: undefined'' @ 10 # js ''undefined'')"
    by code_simp
  have t: "toString_utf8 ''{}'' = [123, 125]" by code_simp
  have a: "trace (onMessage error (js ''abc'') ''{}'' one_waiter) =
     [Message error (js ''abc'') ''{}'',
      Reject 0 (Error (js ''Compositor error: undefined'' @ 10 # js ''undefined''))]"
    by (simp add: onMessage_trace c one_waiter_def startCompositor_def) (simp add: js_def)
  have b: "toString_utf8 ''{}'' \<noteq> js ''Compositor error: undefined'' @ 10 # js ''undefined''"
    by (simp add: t js_def)
  from a b show ?thesis by blast
qed

text \<open>
  C7, amended. For a frame with status error whose nonce has a registered waiter \<open>w\<close>,
  the waiter leaves the registry and the last thing \<open>onMessage\<close> does is to reject
  \<open>w\<close>: with the payload decoded as UTF-8 when \<open>JSON.parse\<close> throws on that text or
  returns \<open>null\<close>; with \<open>Compositor error: <error>\n<backtrace>\<close> when it returns an
  object whose fields \<open>error\<close> and \<open>backtrace\<close> are strings; with
  \<open>Compositor error: undefined\nundefined\<close> when it returns an object that has neither
  field.
\<close>

theorem error_frame_rejection:
  assumes "map_of (waiters st) nonce = Some w"
  shows "waiters (onMessage error nonce data st) = AList.delete nonce (waiters st)
     \<and> (JSON_parse (toString_utf8 data) = None \<or> JSON_parse (toString_utf8 data) = Some JNull \<longrightarrow>
          last (trace (onMessage error nonce data st)) = Reject w (Error (toString_utf8 data)))
     \<and> (\<forall>ms e b. JSON_parse (toString_utf8 data) = Some (JObject ms)
            \<and> map_of (rev ms) (js ''error'') = Some (JString e)
            \<and> map_of (rev ms) (js ''backtrace'') = Some (JString b) \<longrightarrow>
          last (trace (onMessage error nonce data st)) =
            Reject w (Error (js ''Compositor error: '' @ e @ [10] @ b)))
     \<and> (\<forall>ms. JSON_parse (toString_utf8 data) = Some (JObject ms)
            \<and> map_of (rev ms) (js ''error'') = None
            \<and> map_of (rev ms) (js ''backtrace'') = None \<longrightarrow>
          last (trace (onMessage error nonce data st)) =
            Reject w (Error (js ''Compositor error: '' @ js ''undefined'' @ [10] @ js ''undefined'')))"
  using assms
  by (auto simp: onMessage_trace onMessage_waiters compositor_error_def)

theorem error_frame_rejection_witness:
  \<open>map_of (waiters one_waiter) (js ''abc'') = Some 0
   \<and> last (trace (onMessage error (js ''abc'') ''{"error":"bad","backtrace":"at foo"}'' one_waiter))
       = Reject 0 (Error (js ''Compositor error: bad'' @ 10 # js ''at foo''))
   \<and> last (trace (onMessage error (js ''abc'') ''fail'' one_waiter))
       = Reject 0 (Error (js ''fail''))
   \<and> last (trace (onMessage error (js ''abc'') ''{}'' one_waiter))
       = Reject 0 (Error (js ''Compositor error: undefined'' @ 10 # js ''undefined''))\<close>
proof -
  have h: "map_of (waiters one_waiter) (js ''abc'') = Some 0"
    by (simp add: one_waiter_def startCompositor_def js_def)
  have p1: \<open>JSON_parse (toString_utf8 ''{"error":"bad","backtrace":"at foo"}'') =
              Some (JObject [(js ''error'', JString (js ''bad'')),
                             (js ''backtrace'', JString (js ''at foo''))])\<close>
    by code_simp
  have p2: "JSON_parse (toString_utf8 ''fail'') = None" by code_simp
  have p3: "JSON_parse (toString_utf8 ''{}'') = Some (JObject [])" by code_simp
  have t2: "toString_utf8 ''fail'' = js ''fail''" by code_simp
  have m1: "map_of (rev [(js ''error'', JString (js ''bad'')),
                         (js ''backtrace'', JString (js ''at foo''))]) (js ''error'')
              = Some (JString (js ''bad''))"
    and m2: "map_of (rev [(js ''error'', JString (js ''bad'')),
                         (js ''backtrace'', JString (js ''at foo''))]) (js ''backtrace'')
              = Some (JString (js ''at foo''))"
    by (simp_all add: js_def)
  note a = error_frame_rejection [OF h, of \<open>''{"error":"bad","backtrace":"at foo"}''\<close>]
  note b = error_frame_rejection [OF h, of "''fail''"]
  note c = error_frame_rejection [OF h, of "''{}''"]
  from a p1 m1 m2
  have r1: \<open>last (trace (onMessage error (js ''abc'') ''{"error":"bad","backtrace":"at foo"}'' one_waiter))
       = Reject 0 (Error (js ''Compositor error: '' @ js ''bad'' @ [10] @ js ''at foo''))\<close>
    by blast
  from b p2 t2 have r2: "last (trace (onMessage error (js ''abc'') ''fail'' one_waiter))
       = Reject 0 (Error (js ''fail''))" by simp
  from c p3 have r3: "last (trace (onMessage error (js ''abc'') ''{}'' one_waiter))
       = Reject 0 (Error (js ''Compositor error: '' @ js ''undefined'' @ [10] @ js ''undefined''))"
    by simp
  from h r1 r2 r3 show ?thesis by (simp add: js_def)
qed

subsection \<open>A header that is not complete\<close>

text \<open>
  A scan returns only at a colon inside the buffer. So when fewer than three colons
  follow the marker, one of the three loops of \<open>processInput\<close> runs past the end of the
  buffer and never returns.
\<close>

lemma scan_Some:
  assumes "scan buf i acc = Some (j, s)"
  shows "i \<le> j \<and> j < length buf \<and> buf ! j = CHR '':''"
proof -
  have "i \<le> fst (j, s) \<and> fst (j, s) < length buf \<and> buf ! fst (j, s) = CHR '':''"
  proof (rule scan.raw_induct
      [where P = "\<lambda>b i acc r. i \<le> fst r \<and> fst r < length b \<and> b ! fst r = CHR '':''",
        OF _ assms], goal_cases)
    case (1 f b k a r)
    show ?case
    proof (cases "byte_at b k = Some CHR '':''")
      case True
      with 1(2) have "r = (k, a)" by simp
      with True show ?thesis by (auto simp: byte_at_def split: if_splits)
    next
      case False
      with 1(2) have "f b (k + 1) (a @ fromCharCode (byte_at b k)) = Some r" by simp
      from 1(1) [OF this] show ?thesis by simp
    qed
  qed
  then show ?thesis by simp
qed

lemma scan_None: "\<forall>j. i \<le> j \<and> j < length buf \<longrightarrow> buf ! j \<noteq> CHR '':'' \<Longrightarrow> scan buf i acc = None"
proof (rule ccontr)
  assume a: "\<forall>j. i \<le> j \<and> j < length buf \<longrightarrow> buf ! j \<noteq> CHR '':''" and "scan buf i acc \<noteq> None"
  then obtain j s where "scan buf i acc = Some (j, s)" by auto
  from scan_Some [OF this] a show False by blast
qed

lemma colons_after:
  assumes "j < length xs" and "xs ! j = CHR '':''"
  shows "length (filter (\<lambda>c. c = CHR '':'') xs) =
           length (filter (\<lambda>c. c = CHR '':'') (take j xs)) + 1 +
           length (filter (\<lambda>c. c = CHR '':'') (drop (Suc j) xs))"
proof -
  from assms(1) have "xs = take j xs @ xs ! j # drop (Suc j) xs" by (rule id_take_nth_drop)
  then have "filter (\<lambda>c. c = CHR '':'') xs =
      filter (\<lambda>c. c = CHR '':'') (take j xs @ xs ! j # drop (Suc j) xs)" by simp
  with assms(2) show ?thesis by (simp del: append_take_drop_id)
qed

lemma colon_counted:
  assumes "i \<le> j" and "j < length buf" and "buf ! j = CHR '':''"
  shows "length (filter (\<lambda>c. c = CHR '':'') (drop (Suc j) buf)) <
         length (filter (\<lambda>c. c = CHR '':'') (drop i buf))"
proof -
  from assms have a: "j - i < length (drop i buf)" and b: "drop i buf ! (j - i) = CHR '':''"
    by simp_all
  from assms(1) have c: "drop (Suc (j - i)) (drop i buf) = drop (Suc j) buf" by simp
  from colons_after [OF a b] c show ?thesis by simp
qed

lemma incomplete_header:
  assumes idx: "indexOf (outputBuffer st) separator = Some idx"
    and few: "length (filter (\<lambda>c. c = CHR '':'') (drop (idx + length separator) (outputBuffer st))) < 3"
  shows "processInput st = None"
proof (cases "scan (outputBuffer st) (idx + length separator) []")
  case None
  with idx show ?thesis by (subst processInput.simps) simp
next
  case (Some r1)
  obtain i1 n where r1: "r1 = (i1, n)" by (cases r1)
  from scan_Some [OF Some [unfolded r1]] colon_counted [of "idx + length separator" i1 "outputBuffer st"]
  have c1: "length (filter (\<lambda>c. c = CHR '':'') (drop (Suc i1) (outputBuffer st))) <
         length (filter (\<lambda>c. c = CHR '':'') (drop (idx + length separator) (outputBuffer st)))"
    by blast
  show ?thesis
  proof (cases "scan (outputBuffer st) (i1 + 1) []")
    case None
    with idx Some r1 show ?thesis by (subst processInput.simps) simp
  next
    case s2: (Some r2)
    obtain i2 l where r2: "r2 = (i2, l)" by (cases r2)
    from scan_Some [OF s2 [unfolded r2]] colon_counted [of "i1 + 1" i2 "outputBuffer st"]
    have c2: "length (filter (\<lambda>c. c = CHR '':'') (drop (Suc i2) (outputBuffer st))) <
         length (filter (\<lambda>c. c = CHR '':'') (drop (Suc i1) (outputBuffer st)))"
      by simp
    show ?thesis
    proof (cases "scan (outputBuffer st) (i2 + 1) []")
      case None
      with idx Some r1 s2 r2 show ?thesis by (subst processInput.simps) simp
    next
      case s3: (Some r3)
      obtain i3 t where r3: "r3 = (i3, t)" by (cases r3)
      from scan_Some [OF s3 [unfolded r3]] colon_counted [of "i2 + 1" i3 "outputBuffer st"]
      have c3: "length (filter (\<lambda>c. c = CHR '':'') (drop (Suc i3) (outputBuffer st))) <
         length (filter (\<lambda>c. c = CHR '':'') (drop (Suc i2) (outputBuffer st)))"
        by simp
      from c1 c2 c3 few show ?thesis by linarith
    qed
  qed
qed

text \<open>
  C4 fails on the code. The chunk \<open>remotion_buffer:abc:3\<close> holds the marker and the
  first field of a header; its last two fields are still to come. The handler calls
  \<open>processInput\<close>, whose second loop reads past the end of the buffer, and the call
  never returns: the bytes are not kept for a later chunk.
\<close>

theorem split_header_never_returns:
  "stdout_data ''remotion_buffer:abc:3'' startCompositor = None"
proof -
  let ?st = "startCompositor\<lparr>unprocessedBuffers := [''remotion_buffer:abc:3''],
               outputBuffer := ''remotion_buffer:abc:3'', unprocessedBuffers := []\<rparr>"
  have i: "indexOf ''remotion_buffer:abc:3'' separator = Some 0" by (simp add: separator_def)
  have "processInput ?st = None"
    by (rule incomplete_header [where idx = 0]) (simp_all add: separator_def)
  then show ?thesis
    by (simp add: stdout_data_def concat_and_process_def startCompositor_def separator_def)
qed

subsection \<open>A length field that is not a number\<close>

lemma adjustOffset_NaN_sum:
  "subarray b (num_add (num_add (num i) NaN) (num 1)) None = b"
  by (simp add: subarray_def num_def)

lemma nan_length_diverges:
  assumes nonce: "CHR '':'' \<notin> set nonce" and len: "CHR '':'' \<notin> set len"
    and status: "CHR '':'' \<notin> set status"
    and nan: "Number (map of_char len) = NaN"
    and buf: "outputBuffer st = separator @ nonce @ '':'' @ len @ '':'' @ status @ '':'' @ tail"
  shows "processInput st = None"
proof -
  let ?b = "separator @ nonce @ '':'' @ len @ '':'' @ status @ '':'' @ tail"
  let ?p1 = "separator"
  let ?p2 = "separator @ nonce @ '':''"
  let ?p3 = "separator @ nonce @ '':'' @ len @ '':''"
  have idx: "indexOf ?b separator = Some 0"
    using indexOf_prefix [of separator "nonce @ '':'' @ len @ '':'' @ status @ '':'' @ tail"]
    by simp
  have b1: "?b = ?p1 @ nonce @ CHR '':'' # (len @ '':'' @ status @ '':'' @ tail)" by simp
  have b2: "?b = ?p2 @ len @ CHR '':'' # (status @ '':'' @ tail)" by simp
  have b3: "?b = ?p3 @ status @ CHR '':'' # tail" by simp
  have s1: "scan ?b (length ?p1) [] = Some (length ?p1 + length nonce, map of_char nonce)"
    by (subst b1) (simp only: scan_field [OF nonce] append_Nil)
  have s2: "scan ?b (length ?p2) [] = Some (length ?p2 + length len, map of_char len)"
    by (subst b2) (simp only: scan_field [OF len] append_Nil)
  have s3: "scan ?b (length ?p3) [] = Some (length ?p3 + length status, map of_char status)"
    by (subst b3) (simp only: scan_field [OF status] append_Nil)
  have l1: "0 + length separator = length ?p1" by simp
  have l2: "length ?p1 + length nonce + 1 = length ?p2" by simp
  have l3: "length ?p2 + length len + 1 = length ?p3" by simp
  have never: "outputBuffer x \<noteq> ?b" if "processInput x = Some y" for x y
  proof (rule processInput.raw_induct [where P = "\<lambda>x y. outputBuffer x \<noteq> ?b", OF _ that], goal_cases)
    case (1 f s s')
    show ?case
    proof
      assume eq: "outputBuffer s = ?b"
      let ?X = "(onMessage (if Number (map of_char status) = num 1 then error else success)
                   (map of_char nonce)
                   (subarray ?b (num (length ?p3 + length status + 1))
                      (Some (num_add (num (length ?p3 + length status + 1)) NaN)))
                   s)
                \<lparr>missingData := None, outputBuffer := ?b\<rparr>"
      from 1(2) have "f ?X = Some s'"
        by (simp only: eq idx option.case l1 s1 bind.bind_lunit prod.case l2 s2 l3 s3 nan
            num_less.simps if_False adjustOffset_NaN_sum)
      from 1(1) [OF this] show False by simp
    qed
  qed
  show ?thesis
  proof (rule ccontr)
    assume "processInput st \<noteq> None"
    then obtain y where "processInput st = Some y" by auto
    from never [OF this] buf show False by simp
  qed
qed

lemma lifecycle_stdout:
  assumes "stdout_data data s = Some s'"
  shows "runningStatus s' = runningStatus s"
  by (rule stdout_data_invariant [OF assms, where Q = "\<lambda>x. runningStatus x = runningStatus s"])
     (simp_all add: onMessage_fields)

lemma Number_xyz: "Number (map of_char ''xyz'') = NaN"
  by (simp add: Number_def trim_def is_ws_def non_decimal_def str_decimal_def
      unsigned_decimal_def is_digit_def js_def)

text \<open>
  C3 does not hold: with the length field \<open>xyz\<close> the handler does not end in a state
  of the lifecycle at all. \<open>Number\<close> gives \<open>NaN\<close>, every comparison with it is false,
  the frame is taken as complete, the buffer is cut at offset \<open>NaN\<close>, that is not cut,
  and \<open>processInput\<close> calls itself on the same buffer again.
\<close>

theorem malformed_length_never_returns:
  "stdout_data ''remotion_buffer:abc:xyz:0:foo'' one_waiter = None"
proof -
  let ?c = "''remotion_buffer:abc:xyz:0:foo''"
  let ?st = "one_waiter\<lparr>unprocessedBuffers := [?c], outputBuffer := ?c, unprocessedBuffers := []\<rparr>"
  have "processInput ?st = None"
    by (rule nan_length_diverges [where nonce = "''abc''" and len = "''xyz''" and status = "''0''"
          and tail = "''foo''"])
       (simp_all add: Number_xyz [simplified] separator_def)
  then show ?thesis
    by (simp add: stdout_data_def concat_and_process_def one_waiter_def startCompositor_def separator_def)
qed

text \<open>
  C3, amended. The parser does not check the length field. When a frame whose length
  field \<open>Number\<close> maps to \<open>NaN\<close> arrives on a parser that holds no bytes, the handler
  never returns. And no parser step changes the lifecycle: whenever the handler of a
  stdout chunk returns, \<open>runningStatus\<close> is what it was before.
\<close>

theorem malformed_length_not_detected:
  assumes "CHR '':'' \<notin> set nonce" and "CHR '':'' \<notin> set len" and "CHR '':'' \<notin> set status"
    and "Number (map of_char len) = NaN"
    and "outputBuffer st = []" and "concat (unprocessedBuffers st) = []"
  shows "stdout_data (separator @ nonce @ '':'' @ len @ '':'' @ status @ '':'' @ tail) st = None
       \<and> (\<forall>data s s'. stdout_data data s = Some s' \<longrightarrow> runningStatus s' = runningStatus s)"
proof -
  let ?c = "separator @ nonce @ '':'' @ len @ '':'' @ status @ '':'' @ tail"
  let ?s1 = "st\<lparr>unprocessedBuffers := unprocessedBuffers st @ [?c]\<rparr>"
  let ?s2 = "?s1\<lparr>outputBuffer := concat (outputBuffer ?s1 # unprocessedBuffers ?s1),
                 unprocessedBuffers := []\<rparr>"
  have i: "indexOf ?c separator = Some 0"
    using indexOf_prefix [of separator "nonce @ '':'' @ len @ '':'' @ status @ '':'' @ tail"]
    by simp
  have "outputBuffer ?s2 = ?c" using assms(5,6) by simp
  from nan_length_diverges [OF assms(1-4) this] have "processInput ?s2 = None" .
  moreover have "stdout_data ?c st = concat_and_process ?s1"
    by (simp only: stdout_data_def Let_def i option.case)
  moreover have "concat_and_process ?s1 = processInput ?s2"
    by (simp only: concat_and_process_def)
  ultimately have "stdout_data ?c st = None" by simp
  with lifecycle_stdout show ?thesis by blast
qed

theorem malformed_length_not_detected_witness:
  "Number (map of_char ''1x'') = NaN
   \<and> stdout_data ''remotion_buffer:abc:1x:0:f'' startCompositor = None"
proof -
  have n: "Number (map of_char ''1x'') = NaN"
    by (simp add: Number_def trim_def is_ws_def non_decimal_def str_decimal_def
        unsigned_decimal_def is_digit_def js_def exponent_part_def)
  from malformed_length_not_detected [of "''abc''" "''1x''" "''0''" startCompositor "''f''"] n
  show ?thesis by (simp add: startCompositor_def separator_def)
qed

section \<open>A stream of frames in chunks\<close>

text \<open>
  A frame on the wire with its three parts, and a stream of frames. A frame is well
  formed when its nonce holds no colon. \<open>deliver\<close> is the call of \<open>onMessage\<close> that
  a frame stands for, \<open>dispatch\<close> these calls for a list of frames, in order.

  \<open>safe_cut fs n\<close> says where a chunk may end: \<open>n\<close> bytes into the stream of \<open>fs\<close>
  is the start, or lies in some frame at or after the end of its header and at or
  before its last byte (so inside the payload or between two frames). \<open>remaining fs n\<close>
  drops the frames that are complete after \<open>n\<close> bytes and gives the offset into the
  next one.
\<close>

record wire_frame =
  frame_status :: statusType
  frame_nonce :: bytes
  frame_payload :: bytes

definition wire :: "wire_frame \<Rightarrow> bytes" where
  "wire f = frame_bytes (frame_status f) (frame_nonce f) (frame_payload f)"

definition head_length :: "wire_frame \<Rightarrow> nat" where
  "head_length f = length (header (frame_status f) (frame_nonce f) (length (frame_payload f)))"

definition stream :: "wire_frame list \<Rightarrow> bytes" where
  "stream fs = concat (map wire fs)"

definition well_formed :: "wire_frame \<Rightarrow> bool" where
  "well_formed f \<longleftrightarrow> CHR '':'' \<notin> set (frame_nonce f)"

definition deliver :: "wire_frame \<Rightarrow> state \<Rightarrow> state" where
  "deliver f st = onMessage (frame_status f) (map of_char (frame_nonce f)) (frame_payload f) st"

fun dispatch :: "wire_frame list \<Rightarrow> state \<Rightarrow> state" where
  "dispatch [] st = st"
| "dispatch (f # fs) st = dispatch fs (deliver f st)"

fun safe_cut :: "wire_frame list \<Rightarrow> nat \<Rightarrow> bool" where
  "safe_cut [] n = (n = 0)"
| "safe_cut (f # fs) n =
     (n = 0 \<or> (head_length f \<le> n \<and> n \<le> length (wire f)) \<or>
      (length (wire f) < n \<and> safe_cut fs (n - length (wire f))))"

fun remaining :: "wire_frame list \<Rightarrow> nat \<Rightarrow> wire_frame list \<times> nat" where
  "remaining [] n = ([], 0)"
| "remaining (f # fs) n =
     (if length (wire f) \<le> n then remaining fs (n - length (wire f)) else (f # fs, n))"

definition at_offset :: "wire_frame list \<Rightarrow> nat \<Rightarrow> state \<Rightarrow> bool" where
  "at_offset fs r st \<longleftrightarrow>
     outputBuffer st @ concat (unprocessedBuffers st) = take r (stream fs) \<and>
     (if r = 0 then missingData st = None
      else (case fs of
              [] \<Rightarrow> False
            | f # _ \<Rightarrow> head_length f \<le> r \<and> r < length (wire f) \<and>
                missingData st = Some (num (length (wire f) - r))))"

definition same_core :: "state \<Rightarrow> state \<Rightarrow> bool" where
  "same_core a b \<longleftrightarrow>
     a\<lparr>outputBuffer := [], unprocessedBuffers := [], missingData := None\<rparr> =
     b\<lparr>outputBuffer := [], unprocessedBuffers := [], missingData := None\<rparr>"

text \<open>
  \<open>at_offset fs r st\<close>: the parser holds the first \<open>r\<close> bytes of the stream of \<open>fs\<close>
  and, when these are the header and a part of the payload of the first frame, awaits
  the rest of that payload. \<open>same_core\<close>: two states that differ in the three
  variables of the parser at most.
\<close>

lemma wire_length: "length (wire f) = head_length f + length (frame_payload f)"
  by (simp add: wire_def head_length_def frame_bytes_def)

lemma wire_header:
  "wire f = header (frame_status f) (frame_nonce f) (length (frame_payload f)) @ frame_payload f"
  by (simp add: wire_def frame_bytes_def)

lemma head_length_separator: "length separator \<le> head_length f"
  by (simp add: head_length_def header_def)

lemma wire_separator: "take (length separator) (wire f) = separator"
  by (simp add: wire_def frame_bytes_def header_def)

lemma stream_Cons: "stream (f # fs) = wire f @ stream fs"
  by (simp add: stream_def)

lemma stream_Nil: "stream [] = []"
  by (simp add: stream_def)

lemma safe_cut_0: "safe_cut fs 0"
  by (cases fs) simp_all

lemma same_core_refl: "same_core a a"
  by (simp add: same_core_def)

lemma same_core_sym: "same_core a b \<Longrightarrow> same_core b a"
  by (simp add: same_core_def)

lemma same_core_trans: "same_core a b \<Longrightarrow> same_core b c \<Longrightarrow> same_core a c"
  by (simp add: same_core_def)

lemma same_core_update:
  "same_core (a\<lparr>outputBuffer := x\<rparr>) a"
  "same_core (a\<lparr>unprocessedBuffers := y\<rparr>) a"
  "same_core (a\<lparr>missingData := z\<rparr>) a"
  by (simp_all add: same_core_def)

lemma same_core_deliver: "same_core a b \<Longrightarrow> same_core (deliver f a) (deliver f b)"
proof -
  assume "same_core a b"
  then have eq: "a\<lparr>outputBuffer := [], unprocessedBuffers := [], missingData := None\<rparr> =
     b\<lparr>outputBuffer := [], unprocessedBuffers := [], missingData := None\<rparr>"
    by (simp add: same_core_def)
  have "\<And>s. (deliver f s)\<lparr>outputBuffer := [], unprocessedBuffers := [], missingData := None\<rparr> =
         deliver f (s\<lparr>outputBuffer := [], unprocessedBuffers := [], missingData := None\<rparr>)"
    by (simp add: deliver_def onMessage_buffers)
  with eq show ?thesis by (simp add: same_core_def)
qed

lemma same_core_dispatch: "same_core a b \<Longrightarrow> same_core (dispatch fs a) (dispatch fs b)"
  by (induction fs arbitrary: a b) (simp_all add: same_core_deliver)

lemma frame_step:
  assumes "well_formed f" and "outputBuffer st = wire f @ rest"
  shows "processInput st =
           processInput ((deliver f st)\<lparr>missingData := None, outputBuffer := rest\<rparr>)"
proof -
  from assms(2) have b: "outputBuffer st =
      header (frame_status f) (frame_nonce f) (length (frame_payload f)) @ (frame_payload f @ rest)"
    by (simp add: wire_header)
  from parse_header [OF assms(1) [unfolded well_formed_def] b] show ?thesis
    by (simp add: deliver_def)
qed

lemma frame_partial:
  assumes "well_formed f" and "head_length f \<le> n" and "n < length (wire f)"
    and "outputBuffer st = take n (wire f)"
  shows "processInput st = Some (st\<lparr>missingData := Some (num (length (wire f) - n))\<rparr>)"
proof -
  let ?h = "header (frame_status f) (frame_nonce f) (length (frame_payload f))"
  from assms(2,4) have b: "outputBuffer st = ?h @ take (n - head_length f) (frame_payload f)"
    by (simp add: wire_header head_length_def)
  from assms(2,3) have l: "length (take (n - head_length f) (frame_payload f)) = n - head_length f"
    and lt: "n - head_length f < length (frame_payload f)"
    by (simp_all add: wire_length)
  from assms(2) have "length (frame_payload f) - (n - head_length f) = length (wire f) - n"
    by (simp add: wire_length)
  with parse_header [OF assms(1) [unfolded well_formed_def] b] l lt show ?thesis
    by simp
qed


lemma wire_pos: "0 < length (wire f)"
  using head_length_separator [of f] by (simp add: wire_length separator_def)

lemma remaining_0: "remaining fs 0 = (fs, 0)"
  using wire_pos by (cases fs) simp_all

lemma safe_cut_after:
  assumes "safe_cut (f # fs) n" and "length (wire f) \<le> n"
  shows "safe_cut fs (n - length (wire f))"
proof (cases "n = length (wire f)")
  case True
  then show ?thesis by (simp add: safe_cut_0)
next
  case False
  with assms wire_pos [of f] show ?thesis by auto
qed

lemma safe_cut_pos:
  assumes "safe_cut fs m" and "0 < m"
  shows "\<exists>g gs. fs = g # gs \<and> head_length g \<le> m"
proof (cases fs)
  case Nil
  with assms show ?thesis by simp
next
  case (Cons g gs)
  with assms wire_length [of g] show ?thesis by auto
qed

lemma processInput_prefix:
  assumes "list_all well_formed fs" and "safe_cut fs n"
    and "outputBuffer st = take n (stream fs)" and "unprocessedBuffers st = []"
    and "0 < n \<or> missingData st = None"
  shows "\<exists>st'. processInput st = Some st'
           \<and> at_offset (fst (remaining fs n)) (snd (remaining fs n)) st'
           \<and> same_core (dispatch (fst (remaining fs n)) st') (dispatch fs st)"
  using assms
proof (induction fs arbitrary: n st)
  case Nil
  then have "processInput st = Some st" by (simp add: processInput_empty stream_Nil)
  with Nil show ?case by (simp add: at_offset_def stream_Nil same_core_refl)
next
  case (Cons f fs)
  from Cons.prems(1) have wf: "well_formed f" and wfs: "list_all well_formed fs" by simp_all
  show ?case
  proof (cases "n = 0")
    case True
    with Cons.prems have "processInput st = Some st" and "missingData st = None"
      by (simp_all add: processInput_empty)
    with True Cons.prems show ?thesis
      by (simp add: remaining_0 at_offset_def same_core_refl)
  next
    case False
    show ?thesis
    proof (cases "n < length (wire f)")
      case True
      with False Cons.prems(2) have h: "head_length f \<le> n" by auto
      from True Cons.prems(3) have b: "outputBuffer st = take n (wire f)"
        by (simp add: stream_Cons)
      let ?st' = "st\<lparr>missingData := Some (num (length (wire f) - n))\<rparr>"
      from frame_partial [OF wf h True b] have p: "processInput st = Some ?st'" .
      from True have r: "remaining (f # fs) n = (f # fs, n)" by simp
      have a: "at_offset (f # fs) n ?st'"
        using False True h Cons.prems(3,4) by (simp add: at_offset_def)
      have "same_core ?st' st" by (rule same_core_update)
      then have c: "same_core (dispatch (f # fs) ?st') (dispatch (f # fs) st)"
        by (rule same_core_dispatch)
      from p r a c show ?thesis by simp
    next
      case ge: False
      let ?n' = "n - length (wire f)"
      let ?X = "(deliver f st)\<lparr>missingData := None, outputBuffer := take ?n' (stream fs)\<rparr>"
      from ge Cons.prems(3) have b: "outputBuffer st = wire f @ take ?n' (stream fs)"
        by (simp add: stream_Cons)
      from frame_step [OF wf b] have p: "processInput st = processInput ?X" .
      from ge Cons.prems(2) have s: "safe_cut fs ?n'" by (intro safe_cut_after) simp_all
      have u: "unprocessedBuffers ?X = []"
        using Cons.prems(4) by (simp add: deliver_def onMessage_fields)
      from Cons.IH [OF wfs s _ u] obtain st' where
        p': "processInput ?X = Some st'"
        and a: "at_offset (fst (remaining fs ?n')) (snd (remaining fs ?n')) st'"
        and c: "same_core (dispatch (fst (remaining fs ?n')) st') (dispatch fs ?X)"
        by auto
      from ge have r: "remaining (f # fs) n = remaining fs ?n'" by simp
      have "same_core ?X (deliver f st)"
        by (simp add: same_core_def)
      then have "same_core (dispatch fs ?X) (dispatch fs (deliver f st))"
        by (rule same_core_dispatch)
      with c have "same_core (dispatch (fst (remaining fs ?n')) st') (dispatch (f # fs) st)"
        by (auto intro: same_core_trans)
      with p p' a r show ?thesis by simp
    qed
  qed
qed

lemma remaining_stream:
  "drop (snd (remaining fs n)) (stream (fst (remaining fs n))) = drop n (stream fs)"
  by (induction fs arbitrary: n) (simp_all add: stream_Cons stream_Nil)

lemma remaining_safe:
  "safe_cut fs (n + x) \<Longrightarrow> safe_cut (fst (remaining fs n)) (snd (remaining fs n) + x)"
proof (induction fs arbitrary: n)
  case Nil
  then show ?case by simp
next
  case (Cons f fs)
  show ?case
  proof (cases "length (wire f) \<le> n")
    case True
    with Cons.prems have "safe_cut fs (n + x - length (wire f))"
      by (intro safe_cut_after) simp_all
    with True have "safe_cut fs ((n - length (wire f)) + x)" by simp
    from Cons.IH [OF this] True show ?thesis by simp
  next
    case False
    with Cons.prems show ?thesis by simp
  qed
qed

lemma remaining_well_formed:
  "list_all well_formed fs \<Longrightarrow> list_all well_formed (fst (remaining fs n))"
  by (induction fs arbitrary: n) simp_all


lemma indexOf_take: "take (length v) xs = v \<Longrightarrow> indexOf xs v = Some 0"
  by (cases xs) auto

lemma indexOf_occurs: "indexOf (xs @ v @ ys) v \<noteq> None"
proof (induction xs)
  case Nil
  show ?case using indexOf_prefix [of v ys] by simp
next
  case (Cons x xs)
  then show ?case by auto
qed

lemma stream_starts:
  assumes "safe_cut fs m" and "0 < m"
  shows "\<exists>ys. take m (stream fs) = separator @ ys"
proof -
  from safe_cut_pos [OF assms] obtain g gs where fs: "fs = g # gs" and h: "head_length g \<le> m"
    by auto
  from h head_length_separator [of g] have m: "length separator \<le> m" by simp
  have l: "length separator \<le> length (wire g)"
    using head_length_separator [of g] by (simp add: wire_length)
  have "take (length separator) (take m (stream fs)) = take (length separator) (stream fs)"
    using m by (simp add: min_def)
  also have "\<dots> = separator" using l by (simp add: fs stream_Cons wire_separator)
  finally have "take (length separator) (take m (stream fs)) = separator" .
  then have "take m (stream fs) = separator @ drop (length separator) (take m (stream fs))"
    by (metis append_take_drop_id)
  then show ?thesis by blast
qed

lemma chunk_step:
  assumes wf: "list_all well_formed fs" and inv: "at_offset fs r st"
    and c: "c = take (length c) (drop r (stream fs))"
    and safe: "safe_cut fs (r + length c)"
  shows "\<exists>st1. stdout_data c st = Some st1
           \<and> at_offset (fst (remaining fs (r + length c))) (snd (remaining fs (r + length c))) st1
           \<and> same_core (dispatch (fst (remaining fs (r + length c))) st1) (dispatch fs st)"
proof -
  let ?S = "stream fs"
  let ?q = "r + length c"
  let ?s1 = "st\<lparr>unprocessedBuffers := unprocessedBuffers st @ [c]\<rparr>"
  let ?s2 = "?s1\<lparr>outputBuffer := concat (outputBuffer ?s1 # unprocessedBuffers ?s1),
                 unprocessedBuffers := []\<rparr>"
  from inv have pend: "outputBuffer st @ concat (unprocessedBuffers st) = take r ?S"
    by (simp add: at_offset_def)
  have "take ?q ?S = take r ?S @ take (length c) (drop r ?S)" by (rule take_add)
  with c pend have buf: "outputBuffer ?s2 = take ?q ?S" by simp
  have process: "\<exists>st1. concat_and_process s = Some st1
           \<and> at_offset (fst (remaining fs ?q)) (snd (remaining fs ?q)) st1
           \<and> same_core (dispatch (fst (remaining fs ?q)) st1) (dispatch fs st)"
    if s: "s = ?s1 \<or> (\<exists>m. s = ?s1\<lparr>missingData := m\<rparr>)" and pos: "0 < ?q" for s
  proof -
    let ?t = "s\<lparr>outputBuffer := concat (outputBuffer s # unprocessedBuffers s),
                 unprocessedBuffers := []\<rparr>"
    from s buf have b: "outputBuffer ?t = take ?q ?S" by auto
    have u: "unprocessedBuffers ?t = []" by simp
    from processInput_prefix [OF wf safe b u] pos obtain st1 where
      p: "processInput ?t = Some st1"
      and a: "at_offset (fst (remaining fs ?q)) (snd (remaining fs ?q)) st1"
      and d: "same_core (dispatch (fst (remaining fs ?q)) st1) (dispatch fs ?t)"
      by auto
    from s have "same_core ?t st" by (auto simp: same_core_def)
    then have "same_core (dispatch fs ?t) (dispatch fs st)" by (rule same_core_dispatch)
    with d have "same_core (dispatch (fst (remaining fs ?q)) st1) (dispatch fs st)"
      by (auto intro: same_core_trans)
    with p a show ?thesis by (auto simp: concat_and_process_def)
  qed
  show ?thesis
  proof (cases "indexOf c separator")
    case (Some k)
    then have "c \<noteq> []" by (auto simp: separator_nonempty)
    then have pos: "0 < ?q" by simp
    from Some have "stdout_data c st = concat_and_process ?s1" by (simp add: stdout_data_def)
    with process [OF _ pos, of ?s1] show ?thesis by simp
  next
    case None
    show ?thesis
    proof (cases "r = 0")
      case True
      with inv have m: "missingData st = None" by (simp add: at_offset_def)
      have "c = []"
      proof (rule ccontr)
        assume "c \<noteq> []"
        then have "0 < ?q" by simp
        from stream_starts [OF safe this] obtain ys where "take ?q ?S = separator @ ys" by auto
        with True c have "c = separator @ ys" by simp
        with indexOf_prefix [of separator ys] None show False by simp
      qed
      with None m have sd: "stdout_data c st = Some ?s1" by (simp add: stdout_data_def)
      from True \<open>c = []\<close> inv have "at_offset fs 0 ?s1" by (simp add: at_offset_def)
      with sd True \<open>c = []\<close> show ?thesis
        by (simp add: remaining_0 same_core_dispatch same_core_update)
    next
      case False
      with inv obtain f fs' where fs: "fs = f # fs'" and h: "head_length f \<le> r"
        and lt: "r < length (wire f)"
        and m: "missingData st = Some (num (length (wire f) - r))"
        by (cases fs) (auto simp: at_offset_def)
      have le: "?q \<le> length (wire f)"
      proof (rule ccontr)
        assume "\<not> ?q \<le> length (wire f)"
        then have gt: "length (wire f) < ?q" by simp
        with safe fs have s': "safe_cut fs' (?q - length (wire f))" by (simp add: safe_cut_after)
        from gt have "0 < ?q - length (wire f)" by simp
        from stream_starts [OF s' this] obtain ys where
          ys: "take (?q - length (wire f)) (stream fs') = separator @ ys" by auto
        from lt gt have "take (length c) (drop r ?S) =
            drop r (wire f) @ take (?q - length (wire f)) (stream fs')"
          by (simp add: fs stream_Cons add.commute)
        with c ys have "c = drop r (wire f) @ separator @ ys" by simp
        with indexOf_occurs [of "drop r (wire f)" separator ys] None show False by simp
      qed
      let ?m' = "num (length (wire f) - ?q)"
      from le have sub: "num_sub (num (length (wire f) - r)) (num (length c)) = ?m'"
        by (simp add: num_sub_num)
      show ?thesis
      proof (cases "?q < length (wire f)")
        case True
        then have "num_less (num 0) ?m'" by (simp add: num_less_num)
        with None m sub have sd: "stdout_data c st = Some (?s1\<lparr>missingData := Some ?m'\<rparr>)"
          by (simp add: stdout_data_def)
        from True have r: "remaining fs ?q = (fs, ?q)" by (simp add: fs)
        have "take ?q ?S = take r ?S @ take (length c) (drop r ?S)" by (rule take_add)
        with c pend have p: "outputBuffer st @ concat (unprocessedBuffers st) @ c = take ?q ?S"
          by simp
        from h True p have a: "at_offset fs ?q (?s1\<lparr>missingData := Some ?m'\<rparr>)"
          using False by (simp add: at_offset_def fs)
        have "same_core (?s1\<lparr>missingData := Some ?m'\<rparr>) st" by (simp add: same_core_def)
        then have "same_core (dispatch fs (?s1\<lparr>missingData := Some ?m'\<rparr>)) (dispatch fs st)"
          by (rule same_core_dispatch)
        with sd r a show ?thesis by simp
      next
        case eq: False
        with le have q: "?q = length (wire f)" by simp
        then have "\<not> num_less (num 0) ?m'" by (simp add: num_less_num)
        with None m sub have sd: "stdout_data c st =
            concat_and_process (?s1\<lparr>missingData := Some ?m'\<rparr>)"
          by (simp add: stdout_data_def)
        from False have pos: "0 < ?q" by simp
        from process [OF _ pos, of "?s1\<lparr>missingData := Some ?m'\<rparr>"] sd show ?thesis by auto
      qed
    qed
  qed
qed


lemma stream_empty: "stream fs = [] \<Longrightarrow> fs = []"
  using wire_pos by (cases fs) (auto simp: stream_Cons)

lemma chunks_run:
  assumes "list_all well_formed fs" and "at_offset fs r st"
    and "concat cs = drop r (stream fs)"
    and "\<forall>k \<le> length cs. safe_cut fs (r + length (concat (take k cs)))"
  shows "\<exists>st'. run (map StdoutData cs) st = Some st'
           \<and> same_core st' (dispatch fs st) \<and> at_offset [] 0 st'"
  using assms
proof (induction cs arbitrary: fs r st)
  case Nil
  from Nil.prems(3) have len: "length (stream fs) \<le> r" by simp
  have r0: "r = 0"
  proof (rule ccontr)
    assume "r \<noteq> 0"
    with Nil.prems(2) obtain f fs' where "fs = f # fs'" and "r < length (wire f)"
      by (cases fs) (auto simp: at_offset_def)
    with len show False by (simp add: stream_Cons)
  qed
  with len have "fs = []" by (simp add: stream_empty)
  with r0 Nil.prems(2) show ?case
    by (simp add: same_core_refl at_offset_def)
next
  case (Cons c cs)
  let ?q = "r + length c"
  let ?gs = "fst (remaining fs ?q)"
  let ?r1 = "snd (remaining fs ?q)"
  from Cons.prems(3) have cc: "c @ concat cs = drop r (stream fs)" by simp
  then have "take (length c) (c @ concat cs) = take (length c) (drop r (stream fs))" by simp
  then have c: "c = take (length c) (drop r (stream fs))" by simp
  from Cons.prems(4) [rule_format, of 1] have safe: "safe_cut fs ?q" by simp
  from chunk_step [OF Cons.prems(1,2) c safe] obtain st1 where
    sd: "stdout_data c st = Some st1"
    and a: "at_offset ?gs ?r1 st1"
    and d: "same_core (dispatch ?gs st1) (dispatch fs st)"
    by auto
  have wf: "list_all well_formed ?gs" by (rule remaining_well_formed [OF Cons.prems(1)])
  from cc have "drop (length c) (c @ concat cs) = drop (length c) (drop r (stream fs))" by simp
  then have "concat cs = drop ?q (stream fs)" by (simp add: add.commute)
  with remaining_stream [of fs ?q] have rest: "concat cs = drop ?r1 (stream ?gs)" by simp
  have safes: "\<forall>k \<le> length cs. safe_cut ?gs (?r1 + length (concat (take k cs)))"
  proof (intro allI impI)
    fix k assume "k \<le> length cs"
    with Cons.prems(4) [rule_format, of "Suc k"]
    have "safe_cut fs (?q + length (concat (take k cs)))" by (simp add: add.assoc)
    then show "safe_cut ?gs (?r1 + length (concat (take k cs)))" by (rule remaining_safe)
  qed
  from Cons.IH [OF wf a rest safes] obtain st' where
    r: "run (map StdoutData cs) st1 = Some st'"
    and s: "same_core st' (dispatch ?gs st1)" and e: "at_offset [] 0 st'"
    by auto
  from s d have "same_core st' (dispatch fs st)" by (rule same_core_trans)
  with sd r e show ?case by simp
qed

fun is_message :: "effect \<Rightarrow> bool" where
  "is_message (Message _ _ _) = True"
| "is_message _ = False"

definition message :: "wire_frame \<Rightarrow> effect" where
  "message f = Message (frame_status f) (map of_char (frame_nonce f)) (frame_payload f)"

lemma messages_deliver:
  "filter is_message (trace (deliver f st)) = filter is_message (trace st) @ [message f]"
  by (simp add: deliver_def onMessage_trace message_def split: option.split)

lemma messages_dispatch:
  "filter is_message (trace (dispatch fs st)) = filter is_message (trace st) @ map message fs"
  by (induction fs arbitrary: st) (simp_all add: messages_deliver)

subsection \<open>A marker cut in two\<close>

text \<open>
  C1 fails where a chunk boundary falls inside the marker. Of the chunks
  \<open>remotion_buf\<close> and \<open>fer:abc:3:0:foo\<close> neither contains the marker, and no payload
  is awaited, so the handler returns at once for both: they stay in
  \<open>unprocessedBuffers\<close>, \<open>onMessage\<close> is not called and the waiter for \<open>abc\<close> is
  still pending after the last byte of the frame has arrived.
\<close>

theorem split_marker_frame_not_emitted:
  "''remotion_buf'' @ ''fer:abc:3:0:foo'' = frame_bytes success ''abc'' ''foo''
   \<and> run [StdoutData ''remotion_buf'', StdoutData ''fer:abc:3:0:foo''] one_waiter =
       Some (one_waiter\<lparr>unprocessedBuffers := [''remotion_buf'', ''fer:abc:3:0:foo'']\<rparr>)
   \<and> trace one_waiter = []
   \<and> waiters one_waiter = [(js ''abc'', 0)]"
  by (simp add: frame_foo stdout_data_def separator_def one_waiter_def startCompositor_def)

definition frame_a :: wire_frame where
  "frame_a = \<lparr>frame_status = success, frame_nonce = ''a'', frame_payload = ''X''\<rparr>"

definition frame_b :: wire_frame where
  "frame_b = \<lparr>frame_status = error, frame_nonce = ''b'', frame_payload = ''fail''\<rparr>"

lemma char_of_digits: "char_of (49::nat) = CHR ''1''" "char_of (52::nat) = CHR ''4''"
  by code_simp+

lemma wire_a: "wire frame_a = ''remotion_buffer:a:1:0:X''"
  by (simp add: wire_def frame_a_def frame_bytes_def header_def separator_def ascii_def
      decimal_digit char_of_digits)

lemma wire_b: "wire frame_b = ''remotion_buffer:b:4:1:fail''"
  by (simp add: wire_def frame_b_def frame_bytes_def header_def separator_def ascii_def
      decimal_digit char_of_digits)

text \<open>
  C1, amended. Let the chunks of the child's output concatenate to a sequence of well
  formed frames, every chunk ending between two frames or inside a payload (no chunk
  ends inside a marker or a header), and let the parser hold no bytes at the start.
  Then the handler returns for every chunk, and \<open>onMessage\<close> is called for exactly
  these frames, in their order: the trace and the registry are those of dispatching
  the frames one after the other, and no byte is left in the parser.
\<close>

theorem frames_emitted_in_order:
  assumes "list_all well_formed fs"
    and "outputBuffer st = []" and "concat (unprocessedBuffers st) = []" and "missingData st = None"
    and "concat cs = stream fs"
    and "\<forall>k \<le> length cs. safe_cut fs (length (concat (take k cs)))"
  shows "\<exists>st'. run (map StdoutData cs) st = Some st'
           \<and> filter is_message (trace st') = filter is_message (trace st) @ map message fs
           \<and> trace st' = trace (dispatch fs st)
           \<and> waiters st' = waiters (dispatch fs st)
           \<and> outputBuffer st' = [] \<and> concat (unprocessedBuffers st') = []"
proof -
  from assms(2-4) have a: "at_offset fs 0 st" by (simp add: at_offset_def)
  from assms(5) have c: "concat cs = drop 0 (stream fs)" by simp
  from assms(6) have s: "\<forall>k \<le> length cs. safe_cut fs (0 + length (concat (take k cs)))" by simp
  from chunks_run [OF assms(1) a c s] obtain st' where
    r: "run (map StdoutData cs) st = Some st'"
    and sc: "same_core st' (dispatch fs st)" and e: "at_offset [] 0 st'"
    by auto
  from sc have eq: "st'\<lparr>outputBuffer := [], unprocessedBuffers := [], missingData := None\<rparr> =
     (dispatch fs st)\<lparr>outputBuffer := [], unprocessedBuffers := [], missingData := None\<rparr>"
    by (simp add: same_core_def)
  from arg_cong [OF eq, of trace] have t: "trace st' = trace (dispatch fs st)" by simp
  from arg_cong [OF eq, of waiters] have w: "waiters st' = waiters (dispatch fs st)" by simp
  from e have b: "outputBuffer st' = []" "concat (unprocessedBuffers st') = []"
    by (simp_all add: at_offset_def)
  from r t w b messages_dispatch [of fs st] show ?thesis by simp
qed

theorem frames_emitted_in_order_witness:
  "\<exists>st'. run (map StdoutData [''remotion_buffer:a:1:0:'', ''Xremotion_buffer:b:4:1:f'', [], ''ai'', ''l''])
             two_pending = Some st'
     \<and> trace st' = [Message success (js ''a'') ''X'', Resolve 0 (Some ''X''),
                      Message error (js ''b'') ''fail'', Reject 1 (Error (js ''fail''))]
     \<and> waiters st' = []"
proof -
  let ?cs = "[''remotion_buffer:a:1:0:'', ''Xremotion_buffer:b:4:1:f'', [], ''ai'', ''l'']"
  have wf: "list_all well_formed [frame_a, frame_b]"
    by (simp add: well_formed_def frame_a_def frame_b_def)
  have i1: "outputBuffer two_pending = []" and i2: "concat (unprocessedBuffers two_pending) = []"
    and i3: "missingData two_pending = None"
    by (simp_all add: two_pending_def startCompositor_def)
  have c: "concat ?cs = stream [frame_a, frame_b]"
    by (simp add: stream_def wire_a wire_b)
  have ha: "head_length frame_a = 22" and hb: "head_length frame_b = 22"
    by (simp_all add: head_length_def frame_a_def frame_b_def header_def separator_def ascii_def
        decimal_digit)
  have s: "\<forall>k \<le> length ?cs. safe_cut [frame_a, frame_b] (length (concat (take k ?cs)))"
  proof (intro allI impI)
    fix k assume "k \<le> length ?cs"
    then have "k = 0 \<or> k = 1 \<or> k = 2 \<or> k = 3 \<or> k = 4 \<or> k = 5" by auto
    then show "safe_cut [frame_a, frame_b] (length (concat (take k ?cs)))"
      by (auto simp: ha hb wire_a wire_b)
  qed
  have e: "compositor_error [102, 97, 105, 108] = None" by code_simp
  have t: "toString_utf8 ''fail'' = [102, 97, 105, 108]" by code_simp
  have d: "trace (dispatch [frame_a, frame_b] two_pending) =
             [Message success (js ''a'') ''X'', Resolve 0 (Some ''X''),
              Message error (js ''b'') ''fail'', Reject 1 (Error (js ''fail''))]"
    and w: "waiters (dispatch [frame_a, frame_b] two_pending) = []"
    by (simp_all add: deliver_def frame_a_def frame_b_def onMessage_trace onMessage_waiters e t
        two_pending_def startCompositor_def js_def)
  from frames_emitted_in_order [OF wf i1 i2 i3 c s] d w show ?thesis by auto
qed

subsection \<open>A success frame\<close>

lemma dispatch_append: "dispatch (xs @ ys) st = dispatch ys (dispatch xs st)"
  by (induction xs arbitrary: st) simp_all

lemma dispatch_trace: "\<exists>after. trace (dispatch fs st) = trace st @ after"
proof (induction fs arbitrary: st)
  case Nil
  show ?case by simp
next
  case (Cons f fs)
  from Cons.IH [of "deliver f st"] obtain after where
    "trace (dispatch fs (deliver f st)) = trace (deliver f st) @ after" by auto
  then show ?case by (simp add: deliver_def onMessage_trace)
qed

lemma dispatch_absent:
  "map_of (waiters st) n = None \<Longrightarrow> map_of (waiters (dispatch fs st)) n = None"
  by (induction fs arbitrary: st) (simp_all add: deliver_def onMessage_waiters delete_conv')

definition frame_raw :: wire_frame where
  "frame_raw =
     \<lparr>frame_status = success, frame_nonce = ''b'', frame_payload = [CHR 0xFF, CHR 0x00, CHR '':'']\<rparr>"

lemma wire_raw: "wire frame_raw = ''remotion_buffer:b:3:0:'' @ [CHR 0xFF, CHR 0x00, CHR '':'']"
  by (simp add: wire_def frame_raw_def frame_bytes_def header_def separator_def ascii_def
      decimal_digit char_of_51)

text \<open>
  C6 does not hold for a frame that arrives cut inside its marker. The success frame
  for the nonce \<open>b\<close> with the payload \<open>FF 00 3A\<close> arrives as \<open>remotion_buffer\<close> and
  then the colon and the rest. Neither chunk contains the marker and no payload is
  awaited, so the handler returns at once for both: when the last byte of the frame has
  arrived, \<open>onMessage\<close> has not been called and the waiter registered under \<open>b\<close> has
  not been resolved.
\<close>

theorem cut_marker_frame_not_resolved:
  "''remotion_buffer'' @ '':b:3:0:'' @ [CHR 0xFF, CHR 0x00, CHR '':''] = wire frame_raw
   \<and> run [StdoutData ''remotion_buffer'', StdoutData ('':b:3:0:'' @ [CHR 0xFF, CHR 0x00, CHR '':''])]
       two_pending =
       Some (two_pending\<lparr>unprocessedBuffers :=
               [''remotion_buffer'', '':b:3:0:'' @ [CHR 0xFF, CHR 0x00, CHR '':'']]\<rparr>)
   \<and> trace two_pending = []
   \<and> map_of (waiters two_pending) (js ''b'') = Some 1"
  by (simp add: wire_raw stdout_data_def separator_def two_pending_def startCompositor_def js_def)

text \<open>
  C6, amended. Let the child's output be a sequence of well formed frames, among them,
  at any place, a success frame with the nonce \<open>nonce\<close> and the payload \<open>P\<close>: any
  bytes at all (none, bytes that are not UTF-8, colons, the marker). Let the output
  arrive in chunks that end between two frames or inside a payload, on a parser that
  holds no bytes, and let \<open>w\<close> be the waiter registered under \<open>nonce\<close> once the frames
  before this one have been dispatched. Then the handler returns for every chunk, and
  right after the effects of the frames before, \<open>onMessage\<close> is called with the status
  success, the nonce and exactly \<open>P\<close>, and the resolve callback of \<open>w\<close> is called with
  exactly \<open>P\<close>, whatever bytes follow the frame in its chunk and wherever its payload
  is cut. In the end the nonce is no longer in the registry and the parser holds no
  bytes.
\<close>

theorem success_frame_roundtrip:
  assumes "list_all well_formed (pre @ f # post)"
    and "f = \<lparr>frame_status = success, frame_nonce = nonce, frame_payload = P\<rparr>"
    and "outputBuffer st = []" and "concat (unprocessedBuffers st) = []" and "missingData st = None"
    and "concat cs = stream (pre @ f # post)"
    and "\<forall>k \<le> length cs. safe_cut (pre @ f # post) (length (concat (take k cs)))"
    and "map_of (waiters (dispatch pre st)) (map of_char nonce) = Some w"
  shows "\<exists>st' after. run (map StdoutData cs) st = Some st'
           \<and> trace st' = trace (dispatch pre st) @
                Message success (map of_char nonce) P #
                (if map of_char nonce = js ''0''
                 then [VerboseLog (js ''compositor'') (toString_utf8 P)] else []) @
                Resolve w (Some P) # after
           \<and> map_of (waiters st') (map of_char nonce) = None
           \<and> outputBuffer st' = [] \<and> concat (unprocessedBuffers st') = []
           \<and> missingData st' = None"
proof -
  let ?fs = "pre @ f # post"
  let ?X = "dispatch pre st"
  from assms(3-5) have a: "at_offset ?fs 0 st" by (simp add: at_offset_def)
  from assms(6) have c: "concat cs = drop 0 (stream ?fs)" by simp
  from assms(7) have s: "\<forall>k \<le> length cs. safe_cut ?fs (0 + length (concat (take k cs)))" by simp
  from chunks_run [OF assms(1) a c s] obtain st' where
    r: "run (map StdoutData cs) st = Some st'"
    and sc: "same_core st' (dispatch ?fs st)" and i: "at_offset [] 0 st'"
    by auto
  from sc have eq: "st'\<lparr>outputBuffer := [], unprocessedBuffers := [], missingData := None\<rparr> =
     (dispatch ?fs st)\<lparr>outputBuffer := [], unprocessedBuffers := [], missingData := None\<rparr>"
    by (simp add: same_core_def)
  have d: "dispatch ?fs st = dispatch post (deliver f ?X)" by (simp add: dispatch_append)
  from arg_cong [OF eq, of trace] d have t: "trace st' = trace (dispatch post (deliver f ?X))"
    by simp
  from arg_cong [OF eq, of waiters] d have w: "waiters st' = waiters (dispatch post (deliver f ?X))"
    by simp
  from dispatch_trace [of post "deliver f ?X"] obtain after where
    e: "trace (dispatch post (deliver f ?X)) = trace (deliver f ?X) @ after" by auto
  have f: "trace (deliver f ?X) = trace ?X @
                Message success (map of_char nonce) P #
                (if map of_char nonce = js ''0''
                 then [VerboseLog (js ''compositor'') (toString_utf8 P)] else []) @
                [Resolve w (Some P)]"
    using assms(8) by (simp add: deliver_def assms(2) onMessage_trace)
  have "map_of (waiters (deliver f ?X)) (map of_char nonce) = None"
    by (simp add: deliver_def assms(2) onMessage_waiters delete_conv')
  then have g: "map_of (waiters st') (map of_char nonce) = None"
    by (simp add: w dispatch_absent)
  from i have b: "outputBuffer st' = []" "concat (unprocessedBuffers st') = []"
    "missingData st' = None"
    by (simp_all add: at_offset_def)
  from r t e f g b show ?thesis by simp
qed

theorem success_frame_roundtrip_witness:
  "\<exists>st' after.
     run (map StdoutData
            [''remotion_buffer:a:1:0:Xremotion_buffer:b:3:0:'' @ [CHR 0xFF],
             [CHR 0x00, CHR '':''] @ ''remotion_buffer:a:1:0:X''])
       two_pending = Some st'
     \<and> trace st' = [Message success (js ''a'') ''X'', Resolve 0 (Some ''X''),
                      Message success (js ''b'') [CHR 0xFF, CHR 0x00, CHR '':''],
                      Resolve 1 (Some [CHR 0xFF, CHR 0x00, CHR '':''])] @ after
     \<and> map_of (waiters st') (js ''b'') = None
     \<and> outputBuffer st' = []"
proof -
  let ?cs = "[''remotion_buffer:a:1:0:Xremotion_buffer:b:3:0:'' @ [CHR 0xFF],
              [CHR 0x00, CHR '':''] @ ''remotion_buffer:a:1:0:X'']"
  let ?fs = "[frame_a] @ frame_raw # [frame_a]"
  have wf: "list_all well_formed ?fs"
    by (simp add: well_formed_def frame_a_def frame_raw_def)
  have f: "frame_raw = \<lparr>frame_status = success, frame_nonce = ''b'',
                         frame_payload = [CHR 0xFF, CHR 0x00, CHR '':'']\<rparr>"
    by (simp add: frame_raw_def)
  have i1: "outputBuffer two_pending = []" and i2: "concat (unprocessedBuffers two_pending) = []"
    and i3: "missingData two_pending = None"
    by (simp_all add: two_pending_def startCompositor_def)
  have c: "concat ?cs = stream ?fs"
    by (simp add: stream_def wire_a wire_raw)
  have ha: "head_length frame_a = 22" and hr: "head_length frame_raw = 22"
    by (simp_all add: head_length_def frame_a_def frame_raw_def header_def separator_def ascii_def
        decimal_digit)
  have s: "\<forall>k \<le> length ?cs. safe_cut ?fs (length (concat (take k ?cs)))"
  proof (intro allI impI)
    fix k assume "k \<le> length ?cs"
    then have "k = 0 \<or> k = 1 \<or> k = 2" by auto
    then show "safe_cut ?fs (length (concat (take k ?cs)))"
      by (auto simp: ha hr wire_a wire_raw)
  qed
  have d: "trace (dispatch [frame_a] two_pending) =
             [Message success (js ''a'') ''X'', Resolve 0 (Some ''X'')]"
    and w: "map_of (waiters (dispatch [frame_a] two_pending)) (map of_char ''b'') = Some 1"
    by (simp_all add: deliver_def frame_a_def onMessage_trace onMessage_waiters
        two_pending_def startCompositor_def js_def)
  from success_frame_roundtrip [OF wf f i1 i2 i3 c s w] obtain st' after where
    r: "run (map StdoutData ?cs) two_pending = Some st'"
    and t: "trace st' = trace (dispatch [frame_a] two_pending) @
              Message success (map of_char ''b'') [CHR 0xFF, CHR 0x00, CHR '':''] #
              (if map of_char ''b'' = js ''0''
               then [VerboseLog (js ''compositor'') (toString_utf8 [CHR 0xFF, CHR 0x00, CHR '':''])]
               else []) @
              Resolve 1 (Some [CHR 0xFF, CHR 0x00, CHR '':'']) # after"
    and g: "map_of (waiters st') (map of_char ''b'') = None"
    and b: "outputBuffer st' = []"
    by blast
  from t d have t': "trace st' = [Message success (js ''a'') ''X'', Resolve 0 (Some ''X''),
                      Message success (js ''b'') [CHR 0xFF, CHR 0x00, CHR '':''],
                      Resolve 1 (Some [CHR 0xFF, CHR 0x00, CHR '':''])] @ after"
    by (simp add: js_def)
  from g have g': "map_of (waiters st') (js ''b'') = None" by (simp add: js_def)
  from r t' g' b show ?thesis by blast
qed

end
